theory Spec2Isabelle
  imports Main "HOL-Library.AList"
begin

section \<open>The language scope loader (src/resources/language_scope_loader.py)\<close>

subsection \<open>Data\<close>

text \<open>
  A Python dictionary is an association list in insertion order; a lookup is \<open>map_of\<close>, the
  assignment \<open>d[k] = v\<close> is \<open>AList.update\<close> (the value is replaced in place when the key is
  there, the pair is appended otherwise). The keys of a dictionary are distinct.

  \<open>scope_map\<close> is \<open>Dict[str, List[str]]\<close>: scope name to tree-sitter node types.
\<close>

type_synonym scope_map = "(string \<times> string list) list"

text \<open>One entry of \<open>languages\<close>: the keys \<open>extends\<close> and \<open>scopes\<close> are both optional.\<close>

record lang_config =
  extends :: "string option"
  scopes :: "scope_map option"

type_synonym languages = "(string \<times> lang_config) list"

text \<open>The loaded JSON document; only the key \<open>languages\<close> is ever read, and it may be absent.\<close>

record config =
  languages :: "languages option"

text \<open>What the loader prints.\<close>

datatype diagnostic = LoadFailed | CircularDependency string

text \<open>
  The loader object. \<open>config_file\<close> is what reading and parsing \<open>config_path\<close> gives, \<open>None\<close>
  when that raises; \<open>cached_config\<close> is \<open>self._config\<close>, \<open>resolved_scopes\<close> is
  \<open>self._resolved_scopes\<close>, \<open>printed\<close> is the standard output so far.
\<close>

record loader =
  config_file :: "config option"
  cached_config :: "config option"
  resolved_scopes :: "(string \<times> scope_map) list option"
  printed :: "diagnostic list"

definition new_loader :: "config option \<Rightarrow> loader" where
  "new_loader f = \<lparr>config_file = f, cached_config = None, resolved_scopes = None, printed = []\<rparr>"

subsection \<open>Operations\<close>

text \<open>\<open>load_config\<close>: the cached document, else the file, else the minimal fallback (not cached).\<close>

definition load_config :: "loader \<Rightarrow> config \<times> loader" where
  "load_config L =
     (case cached_config L of
        Some c \<Rightarrow> (c, L)
      | None \<Rightarrow>
          (case config_file L of
             Some c \<Rightarrow> (c, L\<lparr>cached_config := Some c\<rparr>)
           | None \<Rightarrow> (\<lparr>languages = Some []\<rparr>, L\<lparr>printed := printed L @ [LoadFailed]\<rparr>)))"

text \<open>\<open>config.get('languages', {})\<close>\<close>

definition get_languages :: "config \<Rightarrow> languages" where
  "get_languages c = (case languages c of None \<Rightarrow> [] | Some ls \<Rightarrow> ls)"

text \<open>The loop \<open>for key, values in parent_scopes.items(): scopes[key] = list(values)\<close> on \<open>scopes = {}\<close>.\<close>

definition copy_scopes :: "scope_map \<Rightarrow> scope_map" where
  "copy_scopes parent_scopes = foldl (\<lambda>s (key, vals). AList.update key vals s) [] parent_scopes"

text \<open>
  One round of the loop over the language's own scopes: extend the list that is there, or
  start a new one.
\<close>

definition apply_scope :: "scope_map \<Rightarrow> string \<times> string list \<Rightarrow> scope_map" where
  "apply_scope s kv =
     (case map_of s (fst kv) of
        Some old \<Rightarrow> AList.update (fst kv) (old @ snd kv) s
      | None \<Rightarrow> AList.update (fst kv) (snd kv) s)"

definition apply_scopes :: "scope_map \<Rightarrow> scope_map \<Rightarrow> scope_map" where
  "apply_scopes s own = foldl apply_scope s own"

text \<open>
  \<open>resolve_language_scopes\<close>. The set \<open>visited\<close> is mutated in place by the source; each call
  makes at most one recursive call and does not read the set after it, so the set is passed
  down and not returned. The default argument \<open>visited = None\<close> is the empty set.
\<close>

function resolve_language_scopes :: "loader \<Rightarrow> string \<Rightarrow> string set \<Rightarrow> scope_map \<times> loader" where
  "resolve_language_scopes L lang_id visited =
     (if lang_id \<in> visited
      then ([], L\<lparr>printed := printed L @ [CircularDependency lang_id]\<rparr>)
      else
        (case load_config L of
           (cfg, L1) \<Rightarrow>
             (case map_of (get_languages cfg) lang_id of
                None \<Rightarrow> ([], L1)
              | Some lang_cfg \<Rightarrow>
                  (case (case extends lang_cfg of
                           None \<Rightarrow> ([], L1)
                         | Some parent \<Rightarrow>
                             (case resolve_language_scopes L1 parent (insert lang_id visited) of
                                (parent_scopes, L2) \<Rightarrow> (copy_scopes parent_scopes, L2))) of
                     (s, L2) \<Rightarrow>
                       (case scopes lang_cfg of
                          None \<Rightarrow> (s, L2)
                        | Some own \<Rightarrow> (apply_scopes s own, L2))))))"
  by pat_completeness auto

lemma load_config_idem: "fst (load_config (snd (load_config L))) = fst (load_config L)"
  by (simp add: load_config_def split: option.splits)

definition lang_ids :: "loader \<Rightarrow> string set" where
  "lang_ids L = fst ` set (get_languages (fst (load_config L)))"

lemma lang_ids_load [simp]: "lang_ids (snd (load_config L)) = lang_ids L"
  by (simp add: lang_ids_def load_config_idem)

lemma finite_lang_ids [simp]: "finite (lang_ids L)"
  by (simp add: lang_ids_def)

lemma resolve_measure:
  assumes "lang_id \<notin> visited" and "(cfg, L1) = load_config L"
    and "map_of (get_languages cfg) lang_id = Some lang_cfg"
  shows "card (lang_ids L1 - insert lang_id visited) < card (lang_ids L - visited)"
proof -
  from assms(2) have cfg: "cfg = fst (load_config L)" and L1: "L1 = snd (load_config L)"
    by (metis fst_conv, metis snd_conv)
  from assms(3) cfg have "lang_id \<in> lang_ids L"
    by (metis domI dom_map_of_conv_image_fst lang_ids_def)
  with assms(1) have "lang_ids L - insert lang_id visited \<subset> lang_ids L - visited"
    by auto
  then show ?thesis
    by (simp add: L1 psubset_card_mono)
qed

termination resolve_language_scopes
  by (relation "measure (\<lambda>(L, lang_id, visited). card (lang_ids L - visited))")
    (simp_all add: resolve_measure)

text \<open>
  The same function under a recursion limit, as the interpreter runs it: \<open>d\<close> is the number
  of nested recursive calls still allowed beneath this activation, and \<open>None\<close> is the limit
  being hit.
\<close>

fun resolve_depth_limited :: "nat \<Rightarrow> loader \<Rightarrow> string \<Rightarrow> string set \<Rightarrow> (scope_map \<times> loader) option" where
  "resolve_depth_limited d L lang_id visited =
     (if lang_id \<in> visited
      then Some ([], L\<lparr>printed := printed L @ [CircularDependency lang_id]\<rparr>)
      else
        (case load_config L of
           (cfg, L1) \<Rightarrow>
             (case map_of (get_languages cfg) lang_id of
                None \<Rightarrow> Some ([], L1)
              | Some lang_cfg \<Rightarrow>
                  (case (case extends lang_cfg of
                           None \<Rightarrow> Some ([], L1)
                         | Some parent \<Rightarrow>
                             (case d of
                                0 \<Rightarrow> None
                              | Suc d' \<Rightarrow>
                                  (case resolve_depth_limited d' L1 parent (insert lang_id visited) of
                                     None \<Rightarrow> None
                                   | Some (parent_scopes, L2) \<Rightarrow> Some (copy_scopes parent_scopes, L2)))) of
                     None \<Rightarrow> None
                   | Some (s, L2) \<Rightarrow>
                       (case scopes lang_cfg of
                          None \<Rightarrow> Some (s, L2)
                        | Some own \<Rightarrow> Some (apply_scopes s own, L2))))))"

text \<open>The languages of the document that \<open>load_config\<close> returns.\<close>

definition loaded_languages :: "loader \<Rightarrow> languages" where
  "loaded_languages L = get_languages (fst (load_config L))"

text \<open>
  \<open>get_all_scopes\<close>. The loop \<open>for lang_id in languages\<close> carries the dictionary it fills
  together with the loader, whose field \<open>_resolved_scopes\<close> is that same dictionary.
\<close>

definition resolve_all_step :: "(string \<times> scope_map) list \<times> loader \<Rightarrow> string \<Rightarrow> (string \<times> scope_map) list \<times> loader" where
  "resolve_all_step st lang_id =
     (case resolve_language_scopes (snd st) lang_id {} of
        (s, L') \<Rightarrow>
          (AList.update lang_id s (fst st),
           L'\<lparr>resolved_scopes := Some (AList.update lang_id s (fst st))\<rparr>))"

definition get_all_scopes :: "loader \<Rightarrow> (string \<times> scope_map) list \<times> loader" where
  "get_all_scopes L =
     (case resolved_scopes L of
        Some r \<Rightarrow> (r, L)
      | None \<Rightarrow>
          (case load_config L of
             (cfg, L1) \<Rightarrow>
               foldl resolve_all_step ([], L1\<lparr>resolved_scopes := Some []\<rparr>)
                 (map fst (get_languages cfg))))"

definition get_language_scopes :: "loader \<Rightarrow> string \<Rightarrow> scope_map option \<times> loader" where
  "get_language_scopes L lang_id =
     (case get_all_scopes L of (all_scopes, L') \<Rightarrow> (map_of all_scopes lang_id, L'))"

subsection \<open>The interpreter's recursion limit\<close>

text \<open>
  The functions above describe the loader where resolution returns. The source recurses once
  for every step of an \<open>extends\<close> chain and catches no exception, so on a chain longer than
  the interpreter allows \<open>resolve_language_scopes\<close> raises \<open>RecursionError\<close>, which passes
  through \<open>get_all_scopes\<close> and \<open>get_language_scopes\<close> to the caller. The functions below
  keep that failure as a value: \<open>d\<close> is the number of nested recursive calls of
  \<open>resolve_language_scopes\<close> that the interpreter allows beneath its outermost activation,
  and the loader returned beside an error is the loader as the raise leaves it.
\<close>

datatype py_error = RecursionError

text \<open>
  \<open>resolve_language_scopes\<close> with the raise: the recursive call is refused when no nested call
  is left, and the error of a recursive call passes through the frame that made it.
\<close>

fun resolve_language_scopes_limited ::
  "nat \<Rightarrow> loader \<Rightarrow> string \<Rightarrow> string set \<Rightarrow> (py_error + scope_map) \<times> loader" where
  "resolve_language_scopes_limited d L lang_id visited =
     (if lang_id \<in> visited
      then (Inr [], L\<lparr>printed := printed L @ [CircularDependency lang_id]\<rparr>)
      else
        (case load_config L of
           (cfg, L1) \<Rightarrow>
             (case map_of (get_languages cfg) lang_id of
                None \<Rightarrow> (Inr [], L1)
              | Some lang_cfg \<Rightarrow>
                  (case (case extends lang_cfg of
                           None \<Rightarrow> (Inr [], L1)
                         | Some parent \<Rightarrow>
                             (case d of
                                0 \<Rightarrow> (Inl RecursionError, L1)
                              | Suc d' \<Rightarrow>
                                  (case resolve_language_scopes_limited d' L1 parent
                                          (insert lang_id visited) of
                                     (Inl e, L2) \<Rightarrow> (Inl e, L2)
                                   | (Inr parent_scopes, L2) \<Rightarrow>
                                       (Inr (copy_scopes parent_scopes), L2)))) of
                     (Inl e, L2) \<Rightarrow> (Inl e, L2)
                   | (Inr s, L2) \<Rightarrow>
                       (case scopes lang_cfg of
                          None \<Rightarrow> (Inr s, L2)
                        | Some own \<Rightarrow> (Inr (apply_scopes s own), L2))))))"

text \<open>
  The loop of \<open>get_all_scopes\<close> with the raise: the first language whose resolution raises ends
  the loop, and \<open>_resolved_scopes\<close> keeps the entries stored before it.
\<close>

fun resolve_all_limited ::
  "nat \<Rightarrow> (string \<times> scope_map) list \<times> loader \<Rightarrow> string list
     \<Rightarrow> (py_error + (string \<times> scope_map) list) \<times> loader" where
  "resolve_all_limited d st [] = (Inr (fst st), snd st)"
| "resolve_all_limited d st (lang_id # rest) =
     (case resolve_language_scopes_limited d (snd st) lang_id {} of
        (Inl e, L') \<Rightarrow> (Inl e, L')
      | (Inr s, L') \<Rightarrow>
          resolve_all_limited d
            (AList.update lang_id s (fst st),
             L'\<lparr>resolved_scopes := Some (AList.update lang_id s (fst st))\<rparr>)
            rest)"

text \<open>\<open>get_all_scopes\<close>, \<open>get_language_scopes\<close> and \<open>is_node_type_in_scope\<close> with the raise.\<close>

definition get_all_scopes_limited ::
  "nat \<Rightarrow> loader \<Rightarrow> (py_error + (string \<times> scope_map) list) \<times> loader" where
  "get_all_scopes_limited d L =
     (case resolved_scopes L of
        Some r \<Rightarrow> (Inr r, L)
      | None \<Rightarrow>
          (case load_config L of
             (cfg, L1) \<Rightarrow>
               resolve_all_limited d ([], L1\<lparr>resolved_scopes := Some []\<rparr>)
                 (map fst (get_languages cfg))))"

definition get_language_scopes_limited ::
  "nat \<Rightarrow> loader \<Rightarrow> string \<Rightarrow> (py_error + scope_map option) \<times> loader" where
  "get_language_scopes_limited d L lang_id =
     (case get_all_scopes_limited d L of
        (Inl e, L') \<Rightarrow> (Inl e, L')
      | (Inr all_scopes, L') \<Rightarrow> (Inr (map_of all_scopes lang_id), L'))"

definition is_node_type_in_scope ::
  "nat \<Rightarrow> loader \<Rightarrow> string \<Rightarrow> string \<Rightarrow> string \<Rightarrow> (py_error + bool) \<times> loader" where
  "is_node_type_in_scope d L lang_id node_type scope =
     (case get_language_scopes_limited d L lang_id of
        (Inl e, L') \<Rightarrow> (Inl e, L')
      | (Inr lang_scopes, L') \<Rightarrow>
          (case lang_scopes of
             None \<Rightarrow> (Inr False, L')
           | Some m \<Rightarrow>
               if m = [] then (Inr False, L')
               else (Inr (node_type \<in> set (case map_of m scope of None \<Rightarrow> [] | Some ts \<Rightarrow> ts)), L')))"

text \<open>
  A configuration of \<open>n\<close> languages in one chain: the language \<open>x\<close> extends \<open>xx\<close>, which extends
  \<open>xxx\<close>, and so on; the last one extends a language that is not defined.
\<close>

definition chain_id :: "nat \<Rightarrow> string" where
  "chain_id i = replicate (Suc i) CHR ''x''"

definition chain_languages :: "nat \<Rightarrow> languages" where
  "chain_languages n =
     map (\<lambda>i. (chain_id i, \<lparr>extends = Some (chain_id (Suc i)), scopes = None\<rparr>)) [0..<n]"

definition chain_loader :: "nat \<Rightarrow> loader" where
  "chain_loader n = new_loader (Some \<lparr>languages = Some (chain_languages n)\<rparr>)"

subsection \<open>The extends chain, own entries and examples\<close>

text \<open>
  The \<open>extends\<close> chain: \<open>ancestor ls n x\<close> is the language reached from \<open>x\<close> after \<open>n\<close>
  steps, each from a language that \<open>ls\<close> defines to the one it extends.
\<close>

fun ancestor :: "languages \<Rightarrow> nat \<Rightarrow> string \<Rightarrow> string option" where
  "ancestor ls 0 x = Some x"
| "ancestor ls (Suc n) x =
     (case map_of ls x of
        None \<Rightarrow> None
      | Some lc \<Rightarrow> (case extends lc of None \<Rightarrow> None | Some p \<Rightarrow> ancestor ls n p))"

text \<open>
  The language's own entries (none when the key \<open>scopes\<close> is absent), and the second half of
  \<open>resolve_language_scopes\<close>, which applies them to the scopes taken from the parent.
\<close>

definition own_scopes :: "lang_config \<Rightarrow> scope_map" where
  "own_scopes lc = (case scopes lc of None \<Rightarrow> [] | Some own \<Rightarrow> own)"

definition with_own_scopes :: "scope_map \<Rightarrow> lang_config \<Rightarrow> scope_map" where
  "with_own_scopes s lc = (case scopes lc of None \<Rightarrow> s | Some own \<Rightarrow> apply_scopes s own)"

text \<open>A small configuration: a root language, a child of it, two languages extending each other,
  and a language with no entries.\<close>

definition example_languages :: languages where
  "example_languages =
     [(''javascript'', \<lparr>extends = None,
         scopes = Some [(''func'', [''function_declaration'', ''arrow_function'']),
                        (''class'', [''class_declaration''])]\<rparr>),
      (''typescript'', \<lparr>extends = Some ''javascript'',
         scopes = Some [(''func'', [''method_signature'']),
                        (''iface'', [''interface_declaration''])]\<rparr>),
      (''a'', \<lparr>extends = Some ''b'', scopes = Some [(''func'', [''fa''])]\<rparr>),
      (''b'', \<lparr>extends = Some ''a'', scopes = Some [(''func'', [''fb''])]\<rparr>),
      (''plain'', \<lparr>extends = None, scopes = None\<rparr>)]"

definition example_loader :: loader where
  "example_loader = new_loader (Some \<lparr>languages = Some example_languages\<rparr>)"

section \<open>Properties of the scope loader\<close>

declare resolve_language_scopes.simps [simp del]

lemma resolve_visited:
  "lang_id \<in> visited \<Longrightarrow>
   resolve_language_scopes L lang_id visited = ([], L\<lparr>printed := printed L @ [CircularDependency lang_id]\<rparr>)"
  by (simp add: resolve_language_scopes.simps)

lemma resolve_unknown:
  "lang_id \<notin> visited \<Longrightarrow> map_of (loaded_languages L) lang_id = None \<Longrightarrow>
   resolve_language_scopes L lang_id visited = ([], snd (load_config L))"
  by (cases "load_config L") (simp add: resolve_language_scopes.simps[of L] loaded_languages_def)

lemma resolve_root:
  "lang_id \<notin> visited \<Longrightarrow> map_of (loaded_languages L) lang_id = Some lc \<Longrightarrow> extends lc = None \<Longrightarrow>
   resolve_language_scopes L lang_id visited = (with_own_scopes [] lc, snd (load_config L))"
  by (cases "load_config L")
    (simp add: resolve_language_scopes.simps[of L] loaded_languages_def with_own_scopes_def
      split: option.splits)

lemma resolve_child:
  "lang_id \<notin> visited \<Longrightarrow> map_of (loaded_languages L) lang_id = Some lc \<Longrightarrow> extends lc = Some parent \<Longrightarrow>
   resolve_language_scopes L lang_id visited =
     (with_own_scopes
        (copy_scopes (fst (resolve_language_scopes (snd (load_config L)) parent (insert lang_id visited)))) lc,
      snd (resolve_language_scopes (snd (load_config L)) parent (insert lang_id visited)))"
  by (cases "load_config L")
    (simp add: resolve_language_scopes.simps[of L] loaded_languages_def with_own_scopes_def
      case_prod_unfold split: option.splits)

lemma loaded_languages_load [simp]: "loaded_languages (snd (load_config L)) = loaded_languages L"
  by (simp add: loaded_languages_def load_config_idem)

lemma resolve_pure:
  "loaded_languages L = loaded_languages L' \<Longrightarrow>
   fst (resolve_language_scopes L lang_id visited) = fst (resolve_language_scopes L' lang_id visited)"
proof (induction L lang_id visited arbitrary: L' rule: resolve_language_scopes.induct)
  case (1 L lang_id visited)
  show ?case
  proof (cases "lang_id \<in> visited")
    case True
    then show ?thesis by (simp add: resolve_visited)
  next
    case nv: False
    show ?thesis
    proof (cases "map_of (loaded_languages L) lang_id")
      case None
      then have "map_of (loaded_languages L') lang_id = None"
        using "1.prems" by simp
      with nv None show ?thesis by (simp add: resolve_unknown)
    next
      case look: (Some lc)
      then have look': "map_of (loaded_languages L') lang_id = Some lc"
        using "1.prems" by simp
      show ?thesis
      proof (cases "extends lc")
        case None
        show ?thesis
          by (simp add: resolve_root[OF nv look None] resolve_root[OF nv look' None])
      next
        case (Some parent)
        have "fst (resolve_language_scopes (snd (load_config L)) parent (insert lang_id visited))
            = fst (resolve_language_scopes (snd (load_config L')) parent (insert lang_id visited))"
          using "1.IH"[of "fst (load_config L)" "snd (load_config L)" lc parent "snd (load_config L')"]
            nv look Some "1.prems"
          by (simp add: loaded_languages_def load_config_idem)
        then show ?thesis
          by (simp add: resolve_child[OF nv look Some] resolve_child[OF nv look' Some])
      qed
    qed
  qed
qed


lemma loaded_languages_example:
  "loaded_languages example_loader = example_languages"
  by (simp add: loaded_languages_def example_loader_def new_loader_def load_config_def
      get_languages_def)

lemma update_fresh: "k \<notin> fst ` set al \<Longrightarrow> AList.update k v al = al @ [(k, v)]"
  by (induction al) auto

lemma copy_fold_distinct:
  "distinct (map fst (acc @ ps)) \<Longrightarrow>
   foldl (\<lambda>s (key, vals). AList.update key vals s) acc ps = acc @ ps"
proof (induction ps arbitrary: acc)
  case Nil
  then show ?case by simp
next
  case (Cons p ps)
  obtain k v where p: "p = (k, v)" by (cases p)
  from Cons.prems p have "k \<notin> fst ` set acc" by auto
  then have "AList.update k v acc = acc @ [(k, v)]" by (rule update_fresh)
  moreover from Cons.prems p have "distinct (map fst ((acc @ [(k, v)]) @ ps))" by simp
  ultimately show ?case using Cons.IH[of "acc @ [(k, v)]"] p by simp
qed

lemma copy_scopes_distinct: "distinct (map fst ps) \<Longrightarrow> copy_scopes ps = ps"
  using copy_fold_distinct[of "[]" ps] by (simp add: copy_scopes_def)

lemma distinct_apply_scope: "distinct (map fst s) \<Longrightarrow> distinct (map fst (apply_scope s kv))"
  by (simp add: apply_scope_def distinct_update split: option.splits)

lemma distinct_apply_scopes: "distinct (map fst s) \<Longrightarrow> distinct (map fst (apply_scopes s own))"
  unfolding apply_scopes_def
  by (induction own arbitrary: s) (simp_all add: distinct_apply_scope)

lemma distinct_with_own: "distinct (map fst s) \<Longrightarrow> distinct (map fst (with_own_scopes s lc))"
  by (simp add: with_own_scopes_def distinct_apply_scopes split: option.splits)

lemma distinct_copy_fold:
  "distinct (map fst acc) \<Longrightarrow>
   distinct (map fst (foldl (\<lambda>s (key, vals). AList.update key vals s) acc ps))"
  by (induction ps arbitrary: acc) (auto simp: distinct_update)

lemma distinct_copy_scopes: "distinct (map fst (copy_scopes ps))"
  by (simp add: copy_scopes_def distinct_copy_fold)

lemma resolve_distinct: "distinct (map fst (fst (resolve_language_scopes L lang_id visited)))"
proof (cases "lang_id \<in> visited")
  case True
  then show ?thesis by (simp add: resolve_visited)
next
  case nv: False
  show ?thesis
  proof (cases "map_of (loaded_languages L) lang_id")
    case None
    with nv show ?thesis by (simp add: resolve_unknown)
  next
    case look: (Some lc)
    show ?thesis
    proof (cases "extends lc")
      case None
      show ?thesis by (simp add: resolve_root[OF nv look None] distinct_with_own)
    next
      case (Some parent)
      show ?thesis
        by (simp add: resolve_child[OF nv look Some] distinct_with_own distinct_copy_scopes)
    qed
  qed
qed

lemma map_of_apply_scope:
  "map_of (apply_scope s kv) name =
     (if name = fst kv
      then Some ((case map_of s name of None \<Rightarrow> [] | Some old \<Rightarrow> old) @ snd kv)
      else map_of s name)"
  by (simp add: apply_scope_def update_conv' split: option.splits)

lemma map_of_apply_scopes:
  "distinct (map fst own) \<Longrightarrow>
   map_of (apply_scopes s own) name =
     (case map_of own name of
        None \<Rightarrow> map_of s name
      | Some vs \<Rightarrow> Some ((case map_of s name of None \<Rightarrow> [] | Some old \<Rightarrow> old) @ vs))"
  unfolding apply_scopes_def
proof (induction own arbitrary: s)
  case Nil
  then show ?case by simp
next
  case (Cons kv own)
  have "name = fst kv \<Longrightarrow> map_of own name = None"
    using Cons.prems by (cases kv) (auto simp: map_of_eq_None_iff)
  with Cons show ?case
    by (cases kv) (auto simp: map_of_apply_scope split: option.splits)
qed

lemma resolve_ignores_unrelated:
  "\<forall>n. ancestor (loaded_languages L) n lang_id \<noteq> Some y \<Longrightarrow>
   fst (resolve_language_scopes L lang_id (insert y visited)) =
   fst (resolve_language_scopes L lang_id visited)"
proof (induction L lang_id visited rule: resolve_language_scopes.induct)
  case (1 L lang_id visited)
  from "1.prems"[rule_format, of 0] have ne: "lang_id \<noteq> y" by simp
  show ?case
  proof (cases "lang_id \<in> visited")
    case True
    then show ?thesis by (simp add: resolve_visited)
  next
    case nv: False
    with ne have nv': "lang_id \<notin> insert y visited" by simp
    show ?thesis
    proof (cases "map_of (loaded_languages L) lang_id")
      case None
      with nv nv' show ?thesis by (simp add: resolve_unknown)
    next
      case look: (Some lc)
      show ?thesis
      proof (cases "extends lc")
        case None
        show ?thesis
          by (simp add: resolve_root[OF nv look None] resolve_root[OF nv' look None])
      next
        case (Some parent)
        have anc: "\<forall>n. ancestor (loaded_languages (snd (load_config L))) n parent \<noteq> Some y"
        proof
          fix n
          from "1.prems"[rule_format, of "Suc n"] look Some
          show "ancestor (loaded_languages (snd (load_config L))) n parent \<noteq> Some y"
            by simp
        qed
        have "fst (resolve_language_scopes (snd (load_config L)) parent (insert y (insert lang_id visited)))
            = fst (resolve_language_scopes (snd (load_config L)) parent (insert lang_id visited))"
          using "1.IH"[of "fst (load_config L)" "snd (load_config L)" lc parent] nv look Some anc
          by (simp add: loaded_languages_def)
        then show ?thesis
          by (simp add: resolve_child[OF nv look Some] resolve_child[OF nv' look Some] insert_commute)
      qed
    qed
  qed
qed

lemma map_of_with_own:
  "distinct (map fst (own_scopes lc)) \<Longrightarrow>
   map_of (with_own_scopes s lc) name =
     (case map_of (own_scopes lc) name of
        None \<Rightarrow> map_of s name
      | Some vs \<Rightarrow> Some ((case map_of s name of None \<Rightarrow> [] | Some old \<Rightarrow> old) @ vs))"
  by (simp add: with_own_scopes_def own_scopes_def map_of_apply_scopes split: option.splits)

text \<open>
  C6: for a language that extends a parent which does not lead back to it, the list resolved
  for a scope name is the parent's resolved list followed by the language's own entries; a name
  that only the parent has keeps the parent's list, a name that only the language has gets its
  own list.
\<close>

theorem child_scopes_parent_first:
  assumes look: "map_of (loaded_languages L) lang_id = Some lc"
    and ext: "extends lc = Some parent"
    and acyclic: "\<forall>n. ancestor (loaded_languages L) n parent \<noteq> Some lang_id"
    and keys: "distinct (map fst (own_scopes lc))"
  shows "map_of (fst (resolve_language_scopes L lang_id {})) name =
     (case map_of (fst (resolve_language_scopes L parent {})) name of
        None \<Rightarrow> map_of (own_scopes lc) name
      | Some inherited \<Rightarrow>
          Some (inherited @ (case map_of (own_scopes lc) name of None \<Rightarrow> [] | Some vs \<Rightarrow> vs)))"
proof -
  let ?L1 = "snd (load_config L)"
  have nv: "lang_id \<notin> {}" by simp
  have "fst (resolve_language_scopes ?L1 parent (insert lang_id {}))
      = fst (resolve_language_scopes ?L1 parent {})"
    using acyclic by (intro resolve_ignores_unrelated) simp
  also have "\<dots> = fst (resolve_language_scopes L parent {})"
    by (rule resolve_pure) simp
  finally have par: "fst (resolve_language_scopes ?L1 parent (insert lang_id {}))
      = fst (resolve_language_scopes L parent {})" .
  have "fst (resolve_language_scopes L lang_id {})
      = with_own_scopes (copy_scopes (fst (resolve_language_scopes L parent {}))) lc"
    by (simp add: resolve_child[OF nv look ext] par)
  also have "copy_scopes (fst (resolve_language_scopes L parent {}))
      = fst (resolve_language_scopes L parent {})"
    by (rule copy_scopes_distinct) (rule resolve_distinct)
  finally show ?thesis
    by (simp add: map_of_with_own[OF keys] split: option.splits)
qed

lemma javascript_is_root: "ancestor example_languages n ''javascript'' \<noteq> Some ''typescript''"
  by (cases n) (simp_all add: example_languages_def)

theorem child_scopes_parent_first_witness:
  "map_of (fst (resolve_language_scopes example_loader ''typescript'' {})) ''func''
     = Some [''function_declaration'', ''arrow_function'', ''method_signature''] \<and>
   map_of (fst (resolve_language_scopes example_loader ''typescript'' {})) ''class''
     = Some [''class_declaration''] \<and>
   map_of (fst (resolve_language_scopes example_loader ''javascript'' {})) ''func''
     = Some [''function_declaration'', ''arrow_function'']"
proof -
  let ?lc = "\<lparr>extends = Some ''javascript'',
         scopes = Some [(''func'', [''method_signature'']),
                        (''iface'', [''interface_declaration''])]\<rparr>"
  have look: "map_of (loaded_languages example_loader) ''typescript'' = Some ?lc"
    by (simp add: loaded_languages_example example_languages_def)
  have ext: "extends ?lc = Some ''javascript''" by simp
  have acyc: "\<forall>n. ancestor (loaded_languages example_loader) n ''javascript'' \<noteq> Some ''typescript''"
    by (simp add: loaded_languages_example javascript_is_root)
  have keys: "distinct (map fst (own_scopes ?lc))" by (simp add: own_scopes_def)
  have js: "fst (resolve_language_scopes example_loader ''javascript'' {})
      = [(''func'', [''function_declaration'', ''arrow_function'']), (''class'', [''class_declaration''])]"
    by (simp add: resolve_language_scopes.simps example_loader_def new_loader_def
        example_languages_def load_config_def get_languages_def apply_scopes_def apply_scope_def)
  show ?thesis
    using child_scopes_parent_first[OF look ext acyc keys, of "''func''"]
      child_scopes_parent_first[OF look ext acyc keys, of "''class''"]
    by (simp add: js own_scopes_def)
qed

declare resolve_depth_limited.simps [simp del]


lemma lang_ids_eq: "lang_ids L = fst ` set (loaded_languages L)"
  by (simp add: lang_ids_def loaded_languages_def)

lemma depth_limit_enough:
  "card (lang_ids L - visited) \<le> d \<Longrightarrow>
   resolve_depth_limited d L lang_id visited = Some (resolve_language_scopes L lang_id visited)"
proof (induction L lang_id visited arbitrary: d rule: resolve_language_scopes.induct)
  case (1 L lang_id visited)
  obtain cfg L1 where lc: "load_config L = (cfg, L1)" by (cases "load_config L")
  show ?case
  proof (cases "lang_id \<in> visited")
    case True
    then show ?thesis
      by (simp add: resolve_depth_limited.simps[of _ L] resolve_language_scopes.simps[of L])
  next
    case nv: False
    show ?thesis
    proof (cases "map_of (get_languages cfg) lang_id")
      case None
      with nv lc show ?thesis
        by (simp add: resolve_depth_limited.simps[of _ L] resolve_language_scopes.simps[of L])
    next
      case look: (Some lang_cfg)
      show ?thesis
      proof (cases "extends lang_cfg")
        case None
        with nv lc look show ?thesis
          by (simp add: resolve_depth_limited.simps[of _ L] resolve_language_scopes.simps[of L]
              split: option.splits)
      next
        case (Some parent)
        have less: "card (lang_ids L1 - insert lang_id visited) < card (lang_ids L - visited)"
          using resolve_measure[OF nv lc[symmetric] look] .
        with "1.prems" have "card (lang_ids L1 - insert lang_id visited) < d"
          by linarith
        then obtain d' where d: "d = Suc d'" and le: "card (lang_ids L1 - insert lang_id visited) \<le> d'"
          by (cases d) (simp_all add: less_Suc_eq_le)
        have "resolve_depth_limited d' L1 parent (insert lang_id visited)
            = Some (resolve_language_scopes L1 parent (insert lang_id visited))"
          using "1.IH"[OF nv lc[symmetric] look Some le] .
        with nv lc look Some d show ?thesis
          by (simp add: resolve_depth_limited.simps[of _ L] resolve_language_scopes.simps[of L]
              case_prod_unfold split: option.splits)
      qed
    qed
  qed
qed

text \<open>
  C9: resolution terminates for every configuration, cyclic or not. The function is total (its
  termination proof measures the language ids not yet visited: each call that recurses has
  added its own id first, and a call on a visited id returns at once, whatever the limit), and
  a recursion limit equal to the number of distinct language ids, or to the number of those
  not yet visited, is never hit.
\<close>

theorem resolution_depth_bounded:
  "resolve_depth_limited (card (lang_ids L)) L lang_id {} = Some (resolve_language_scopes L lang_id {}) \<and>
   (card (lang_ids L - visited) \<le> d \<longrightarrow>
      resolve_depth_limited d L lang_id visited = Some (resolve_language_scopes L lang_id visited)) \<and>
   (lang_id \<in> visited \<longrightarrow>
      resolve_depth_limited d L lang_id visited =
        Some ([], L\<lparr>printed := printed L @ [CircularDependency lang_id]\<rparr>))"
  using depth_limit_enough[of L "{}" "card (lang_ids L)" lang_id]
    depth_limit_enough[of L visited d lang_id]
  by (simp add: resolve_depth_limited.simps[of d L lang_id visited])

theorem resolution_depth_bounded_witness:
  "card (lang_ids example_loader - {''a''}) \<le> 4 \<and>
   resolve_depth_limited 4 example_loader ''b'' {''a''}
     = Some (resolve_language_scopes example_loader ''b'' {''a''}) \<and>
   resolve_depth_limited 0 example_loader ''a'' {''a''}
     = Some ([], example_loader\<lparr>printed := printed example_loader @ [CircularDependency ''a'']\<rparr>)"
proof -
  have "lang_ids example_loader = {''javascript'', ''typescript'', ''a'', ''b'', ''plain''}"
    by (simp add: lang_ids_def example_loader_def new_loader_def load_config_def
        get_languages_def example_languages_def)
  then have c: "card (lang_ids example_loader - {''a''}) \<le> 4"
    by simp
  from resolution_depth_bounded[of example_loader "''b''" "{''a''}" 4]
    resolution_depth_bounded[of example_loader "''a''" "{''a''}" 0] c
  show ?thesis by simp
qed

text \<open>The limit is not vacuous: the cycle of two languages needs two nested calls.\<close>

lemma depth_limit_can_be_hit: "resolve_depth_limited 1 example_loader ''a'' {} = None"
  by (simp add: resolve_depth_limited.simps example_loader_def new_loader_def
      example_languages_def load_config_def get_languages_def)

lemma ancestor_add:
  "ancestor ls (m + n) x = (case ancestor ls m x of None \<Rightarrow> None | Some y \<Rightarrow> ancestor ls n y)"
  by (induction m arbitrary: x) (simp_all split: option.splits)

lemma ancestor_Suc_end:
  "ancestor ls (Suc m) x = (case ancestor ls m x of None \<Rightarrow> None | Some y \<Rightarrow> ancestor ls (Suc 0) y)"
  using ancestor_add[of ls m "Suc 0" x] by (simp del: ancestor.simps)

lemma ancestor_prefix:
  "ancestor ls n x = Some z \<Longrightarrow> m \<le> n \<Longrightarrow> \<exists>y. ancestor ls m x = Some y"
  using ancestor_add[of ls m "n - m" x] by (auto split: option.splits)

lemma loaded_languages_printed [simp]:
  "loaded_languages (L\<lparr>printed := p\<rparr>) = loaded_languages L"
  by (simp add: loaded_languages_def load_config_def split: option.splits)

lemma load_config_quiet:
  "loaded_languages L \<noteq> [] \<Longrightarrow> printed (snd (load_config L)) = printed L"
  by (auto simp: loaded_languages_def load_config_def get_languages_def split: option.splits)

text \<open>
  Along a cycle of least length \<open>k\<close>, the call for the \<open>j\<close>-th ancestor, entered with the first
  \<open>j\<close> ancestors visited, prints the diagnostic for the start of the cycle.
\<close>

lemma cycle_prints:
  assumes k: "0 < k" "ancestor (loaded_languages L0) k x = Some x"
    and least: "\<forall>i. 0 < i \<and> i < k \<longrightarrow> ancestor (loaded_languages L0) i x \<noteq> Some x"
  shows "j \<le> k \<Longrightarrow> loaded_languages L = loaded_languages L0 \<Longrightarrow>
         ancestor (loaded_languages L0) j x = Some y \<Longrightarrow>
         printed (snd (resolve_language_scopes L y {z. \<exists>i<j. ancestor (loaded_languages L0) i x = Some z}))
           = printed L @ [CircularDependency x]"
proof (induction "k - j" arbitrary: j L y)
  case 0
  then have jk: "j = k" by simp
  with "0.prems" k have yx: "y = x" by simp
  have "x \<in> {z. \<exists>i<j. ancestor (loaded_languages L0) i x = Some z}"
    using jk k(1) by (auto intro: exI[of _ 0])
  then show ?case by (simp add: yx resolve_visited)
next
  case (Suc d)
  let ?ls = "loaded_languages L0"
  let ?V = "{z. \<exists>i<j. ancestor ?ls i x = Some z}"
  from Suc.hyps(2) have jk: "j < k" by simp
  have nv: "y \<notin> ?V"
  proof
    assume "y \<in> ?V"
    then obtain i where i: "i < j" "ancestor ?ls i x = Some y" by auto
    have "ancestor ?ls (j + (k - j)) x = Some x" using jk k(2) by simp
    then have rest: "ancestor ?ls (k - j) y = Some x"
      using Suc.prems(3) by (simp add: ancestor_add)
    have "ancestor ?ls (i + (k - j)) x = Some x"
      using i(2) rest by (simp add: ancestor_add)
    moreover have "0 < i + (k - j)" "i + (k - j) < k" using i(1) jk by simp_all
    ultimately show False using least by blast
  qed
  obtain y' where y': "ancestor ?ls (Suc j) x = Some y'"
    using ancestor_prefix[OF k(2), of "Suc j"] jk by auto
  have "ancestor ?ls (Suc j) x = ancestor ?ls (Suc 0) y"
    using ancestor_Suc_end[of ?ls j x] Suc.prems(3) by (simp del: ancestor.simps)
  with y' have step: "ancestor ?ls (Suc 0) y = Some y'"
    by simp
  then obtain lc where look: "map_of ?ls y = Some lc" and ext: "extends lc = Some y'"
    by (auto split: option.splits)
  from look have look': "map_of (loaded_languages L) y = Some lc"
    by (simp add: Suc.prems(2))
  have Veq: "insert y ?V = {z. \<exists>i<Suc j. ancestor ?ls i x = Some z}"
    using Suc.prems(3) by (auto simp: less_Suc_eq)
  have ne: "loaded_languages L \<noteq> []" using look' by auto
  have "printed (snd (resolve_language_scopes (snd (load_config L)) y'
          {z. \<exists>i<Suc j. ancestor ?ls i x = Some z}))
      = printed (snd (load_config L)) @ [CircularDependency x]"
    using Suc.hyps(1)[of "Suc j" "snd (load_config L)" y'] Suc.hyps(2) jk y' Suc.prems(2)
    by simp
  then show ?case
    by (simp add: resolve_child[OF nv look' ext] Veq load_config_quiet[OF ne])
qed

lemma cycle_diagnostic:
  assumes "0 < k" "ancestor (loaded_languages L) k lang_id = Some lang_id"
  shows "printed (snd (resolve_language_scopes L lang_id {})) = printed L @ [CircularDependency lang_id]"
proof -
  let ?P = "\<lambda>k. 0 < k \<and> ancestor (loaded_languages L) k lang_id = Some lang_id"
  define m where "m = (LEAST k. ?P k)"
  have Pm: "?P m" unfolding m_def using assms by (intro LeastI[of ?P k]) simp
  have least: "\<forall>i. 0 < i \<and> i < m \<longrightarrow> ancestor (loaded_languages L) i lang_id \<noteq> Some lang_id"
    unfolding m_def using not_less_Least[of _ ?P] by blast
  have "{z. \<exists>i<(0::nat). ancestor (loaded_languages L) i lang_id = Some z} = {}" by simp
  with cycle_prints[of m L lang_id 0 L lang_id] Pm least show ?thesis by simp
qed

lemma load_config_fields [simp]:
  "resolved_scopes (snd (load_config L)) = resolved_scopes L"
  "config_file (snd (load_config L)) = config_file L"
  by (simp_all add: load_config_def split: option.splits)

lemma loaded_languages_resolved [simp]:
  "loaded_languages (L\<lparr>resolved_scopes := r\<rparr>) = loaded_languages L"
  by (simp add: loaded_languages_def load_config_def split: option.splits)

lemma resolve_keeps:
  "loaded_languages (snd (resolve_language_scopes L lang_id visited)) = loaded_languages L \<and>
   resolved_scopes (snd (resolve_language_scopes L lang_id visited)) = resolved_scopes L"
proof (induction L lang_id visited rule: resolve_language_scopes.induct)
  case (1 L lang_id visited)
  show ?case
  proof (cases "lang_id \<in> visited")
    case True
    then show ?thesis by (simp add: resolve_visited)
  next
    case nv: False
    show ?thesis
    proof (cases "map_of (loaded_languages L) lang_id")
      case None
      with nv show ?thesis by (simp add: resolve_unknown)
    next
      case look: (Some lc)
      show ?thesis
      proof (cases "extends lc")
        case None
        show ?thesis by (simp add: resolve_root[OF nv look None])
      next
        case (Some parent)
        have look0: "map_of (get_languages (fst (load_config L))) lang_id = Some lc"
          using look by (simp add: loaded_languages_def)
        have "loaded_languages (snd (resolve_language_scopes (snd (load_config L)) parent (insert lang_id visited)))
              = loaded_languages (snd (load_config L)) \<and>
            resolved_scopes (snd (resolve_language_scopes (snd (load_config L)) parent (insert lang_id visited)))
              = resolved_scopes (snd (load_config L))"
          by (rule "1.IH"[OF nv _ look0 Some]) simp
        then show ?thesis
          by (simp add: resolve_child[OF nv look Some])
      qed
    qed
  qed
qed

lemma resolve_all_step_keeps:
  "resolved_scopes (snd (resolve_all_step st lang_id)) = Some (fst (resolve_all_step st lang_id)) \<and>
   loaded_languages (snd (resolve_all_step st lang_id)) = loaded_languages (snd st)"
  by (simp add: resolve_all_step_def case_prod_unfold resolve_keeps)

lemma resolve_all_fold_keeps:
  "resolved_scopes (snd st) = Some (fst st) \<Longrightarrow>
   resolved_scopes (snd (foldl resolve_all_step st ids)) = Some (fst (foldl resolve_all_step st ids)) \<and>
   loaded_languages (snd (foldl resolve_all_step st ids)) = loaded_languages (snd st)"
  by (induction ids arbitrary: st) (simp_all add: resolve_all_step_keeps)

lemma get_all_scopes_cached:
  "resolved_scopes (snd (get_all_scopes L)) = Some (fst (get_all_scopes L))"
proof (cases "resolved_scopes L")
  case None
  then show ?thesis
    using resolve_all_fold_keeps[of "([], (snd (load_config L))\<lparr>resolved_scopes := Some []\<rparr>)"]
    by (simp add: get_all_scopes_def case_prod_unfold)
next
  case (Some r)
  then show ?thesis by (simp add: get_all_scopes_def)
qed

lemma get_all_scopes_again: "get_all_scopes (snd (get_all_scopes L)) = get_all_scopes L"
  using get_all_scopes_cached[of L]
  by (simp add: get_all_scopes_def[of "snd (get_all_scopes L)"])

lemma resolve_all_fold_lookup:
  "map_of (fst (foldl resolve_all_step st ids)) lang_id =
     (if lang_id \<in> set ids then Some (fst (resolve_language_scopes (snd st) lang_id {}))
      else map_of (fst st) lang_id)"
proof (induction ids arbitrary: st)
  case Nil
  then show ?case by simp
next
  case (Cons i ids)
  have pure: "fst (resolve_language_scopes (snd (resolve_all_step st i)) lang_id {})
      = fst (resolve_language_scopes (snd st) lang_id {})"
    by (rule resolve_pure) (simp add: resolve_all_step_keeps)
  have here: "map_of (fst (resolve_all_step st i)) lang_id =
      (if lang_id = i then Some (fst (resolve_language_scopes (snd st) i {})) else map_of (fst st) lang_id)"
    by (simp add: resolve_all_step_def case_prod_unfold update_conv')
  show ?case
    using Cons.IH[of "resolve_all_step st i"] pure here by auto
qed

lemma get_language_scopes_fresh:
  assumes "resolved_scopes L = None"
  shows "fst (get_language_scopes L lang_id) =
     (if lang_id \<in> lang_ids L then Some (fst (resolve_language_scopes L lang_id {})) else None)"
proof -
  let ?st = "([], (snd (load_config L))\<lparr>resolved_scopes := Some []\<rparr>)"
  have "fst (resolve_language_scopes (snd ?st) lang_id {}) = fst (resolve_language_scopes L lang_id {})"
    by (rule resolve_pure) simp
  then show ?thesis
    using assms resolve_all_fold_lookup[of ?st "map fst (loaded_languages L)" lang_id]
    by (simp add: get_language_scopes_def get_all_scopes_def case_prod_unfold lang_ids_def
        loaded_languages_def)
qed

lemma loaded_languages_new:
  "loaded_languages (new_loader (Some \<lparr>languages = Some ls\<rparr>)) = ls"
  by (simp add: loaded_languages_def new_loader_def load_config_def get_languages_def)




text \<open>
  C8: resolution is cached after first use and pure. After a first \<open>get_language_scopes\<close> the
  cache is filled, and any later call answers from it and leaves the loader as it was (nothing
  is loaded, resolved or printed again); on a loader whose cache is still empty the cached
  value of a defined language is what \<open>resolve_language_scopes\<close> computes. The mapping that
  \<open>resolve_language_scopes\<close> returns depends on the loaded languages only, so repeated calls
  agree.
\<close>

theorem scopes_cached_after_first_use:
  "get_language_scopes (snd (get_language_scopes L lang_id)) other_id
     = (map_of (fst (get_all_scopes L)) other_id, snd (get_language_scopes L lang_id)) \<and>
   fst (get_language_scopes (snd (get_language_scopes L lang_id)) lang_id)
     = fst (get_language_scopes L lang_id) \<and>
   resolved_scopes (snd (get_language_scopes L lang_id)) = Some (fst (get_all_scopes L)) \<and>
   (resolved_scopes L = None \<longrightarrow>
      fst (get_language_scopes L lang_id) =
        (if lang_id \<in> lang_ids L then Some (fst (resolve_language_scopes L lang_id {})) else None)) \<and>
   fst (resolve_language_scopes (snd (resolve_language_scopes L lang_id {})) lang_id {})
     = fst (resolve_language_scopes L lang_id {}) \<and>
   fst (resolve_language_scopes L lang_id visited)
     = fst (resolve_language_scopes (new_loader (Some \<lparr>languages = Some (loaded_languages L)\<rparr>))
         lang_id visited)"
proof -
  have 1: "get_language_scopes (snd (get_language_scopes L lang_id)) x
     = (map_of (fst (get_all_scopes L)) x, snd (get_language_scopes L lang_id))" for x
    by (simp add: get_language_scopes_def case_prod_unfold get_all_scopes_again)
  have 2: "resolved_scopes (snd (get_language_scopes L lang_id)) = Some (fst (get_all_scopes L))"
    by (simp add: get_language_scopes_def case_prod_unfold get_all_scopes_cached)
  have 3: "fst (resolve_language_scopes (snd (resolve_language_scopes L lang_id {})) lang_id {})
     = fst (resolve_language_scopes L lang_id {})"
    by (rule resolve_pure) (simp add: resolve_keeps)
  have 4: "fst (resolve_language_scopes L lang_id visited)
     = fst (resolve_language_scopes (new_loader (Some \<lparr>languages = Some (loaded_languages L)\<rparr>))
         lang_id visited)"
    by (rule resolve_pure) (simp add: loaded_languages_new)
  have 5: "fst (get_language_scopes (snd (get_language_scopes L lang_id)) lang_id)
     = fst (get_language_scopes L lang_id)"
    using 1[of lang_id] by (simp add: get_language_scopes_def case_prod_unfold)
  from 1[of other_id] 2 3 4 5 get_language_scopes_fresh[of L lang_id] show ?thesis by blast
qed

lemma example_loader_fresh: "resolved_scopes example_loader = None"
  by (simp add: example_loader_def new_loader_def)

lemma example_typescript:
  "fst (resolve_language_scopes example_loader ''typescript'' {}) =
     [(''func'', [''function_declaration'', ''arrow_function'', ''method_signature'']),
      (''class'', [''class_declaration'']),
      (''iface'', [''interface_declaration''])]"
  by (simp add: resolve_language_scopes.simps example_loader_def new_loader_def
      example_languages_def load_config_def get_languages_def apply_scopes_def apply_scope_def
      copy_scopes_def)

theorem scopes_cached_after_first_use_witness:
  "resolved_scopes example_loader = None \<and>
   fst (get_language_scopes example_loader ''typescript'') =
     Some [(''func'', [''function_declaration'', ''arrow_function'', ''method_signature'']),
           (''class'', [''class_declaration'']),
           (''iface'', [''interface_declaration''])] \<and>
   fst (get_language_scopes (snd (get_language_scopes example_loader ''typescript'')) ''typescript'') =
     Some [(''func'', [''function_declaration'', ''arrow_function'', ''method_signature'']),
           (''class'', [''class_declaration'']),
           (''iface'', [''interface_declaration''])]"
proof -
  have mem: "''typescript'' \<in> lang_ids example_loader"
    by (simp add: lang_ids_eq loaded_languages_example example_languages_def)
  from scopes_cached_after_first_use[of example_loader "''typescript''" "''typescript''" "{}"]
  have "fst (get_language_scopes example_loader ''typescript'')
          = Some (fst (resolve_language_scopes example_loader ''typescript'' {}))"
    and "fst (get_language_scopes (snd (get_language_scopes example_loader ''typescript'')) ''typescript'')
          = fst (get_language_scopes example_loader ''typescript'')"
    using mem example_loader_fresh by (elim conjE, simp)+
  then show ?thesis
    by (simp add: example_loader_fresh example_typescript)
qed

declare resolve_language_scopes_limited.simps [simp del]

lemma limited_enough:
  "card (lang_ids L - visited) \<le> d \<Longrightarrow>
   resolve_language_scopes_limited d L lang_id visited =
     (Inr (fst (resolve_language_scopes L lang_id visited)),
      snd (resolve_language_scopes L lang_id visited))"
proof (induction L lang_id visited arbitrary: d rule: resolve_language_scopes.induct)
  case (1 L lang_id visited)
  obtain cfg L1 where lc: "load_config L = (cfg, L1)" by (cases "load_config L")
  show ?case
  proof (cases "lang_id \<in> visited")
    case True
    then show ?thesis
      by (simp add: resolve_language_scopes_limited.simps[of _ L] resolve_language_scopes.simps[of L])
  next
    case nv: False
    show ?thesis
    proof (cases "map_of (get_languages cfg) lang_id")
      case None
      with nv lc show ?thesis
        by (simp add: resolve_language_scopes_limited.simps[of _ L] resolve_language_scopes.simps[of L])
    next
      case look: (Some lang_cfg)
      show ?thesis
      proof (cases "extends lang_cfg")
        case None
        with nv lc look show ?thesis
          by (simp add: resolve_language_scopes_limited.simps[of _ L]
              resolve_language_scopes.simps[of L] split: option.splits)
      next
        case (Some parent)
        have "card (lang_ids L1 - insert lang_id visited) < card (lang_ids L - visited)"
          using resolve_measure[OF nv lc[symmetric] look] .
        with "1.prems" have "card (lang_ids L1 - insert lang_id visited) < d"
          by linarith
        then obtain d' where d: "d = Suc d'"
          and le: "card (lang_ids L1 - insert lang_id visited) \<le> d'"
          by (cases d) (simp_all add: less_Suc_eq_le)
        have "resolve_language_scopes_limited d' L1 parent (insert lang_id visited) =
            (Inr (fst (resolve_language_scopes L1 parent (insert lang_id visited))),
             snd (resolve_language_scopes L1 parent (insert lang_id visited)))"
          using "1.IH"[OF nv lc[symmetric] look Some le] .
        with nv lc look Some d show ?thesis
          by (simp add: resolve_language_scopes_limited.simps[of _ L]
              resolve_language_scopes.simps[of L] case_prod_unfold split: option.splits)
      qed
    qed
  qed
qed

lemma limited_is_depth_limited:
  "resolve_depth_limited d L lang_id visited =
     (case resolve_language_scopes_limited d L lang_id visited of
        (Inl e, L') \<Rightarrow> None
      | (Inr s, L') \<Rightarrow> Some (s, L'))"
proof (induction d arbitrary: L lang_id visited)
  case 0
  show ?case
    by (simp add: resolve_depth_limited.simps[of 0 L] resolve_language_scopes_limited.simps[of 0 L]
        split: prod.splits option.splits)
next
  case (Suc d)
  show ?case
    by (simp add: resolve_depth_limited.simps[of "Suc d" L]
        resolve_language_scopes_limited.simps[of "Suc d" L] Suc.IH
        split: prod.splits option.splits sum.splits)
qed

lemma resolve_all_limited_enough:
  "card (lang_ids (snd st)) \<le> d \<Longrightarrow>
   resolve_all_limited d st ids =
     (Inr (fst (foldl resolve_all_step st ids)), snd (foldl resolve_all_step st ids))"
proof (induction ids arbitrary: st)
  case Nil
  then show ?case by simp
next
  case (Cons i ids)
  have here: "resolve_language_scopes_limited d (snd st) i {} =
      (Inr (fst (resolve_language_scopes (snd st) i {})), snd (resolve_language_scopes (snd st) i {}))"
    using Cons.prems by (intro limited_enough) simp
  have step: "resolve_all_step st i =
      (AList.update i (fst (resolve_language_scopes (snd st) i {})) (fst st),
       (snd (resolve_language_scopes (snd st) i {}))
         \<lparr>resolved_scopes := Some (AList.update i (fst (resolve_language_scopes (snd st) i {})) (fst st))\<rparr>)"
    by (simp add: resolve_all_step_def case_prod_unfold)
  have "lang_ids (snd (resolve_all_step st i)) = lang_ids (snd st)"
    by (simp add: lang_ids_eq resolve_all_step_keeps)
  with Cons.prems have "card (lang_ids (snd (resolve_all_step st i))) \<le> d" by simp
  from Cons.IH[OF this] show ?case
    by (simp add: here step)
qed

lemma get_all_scopes_limited_enough:
  assumes "card (lang_ids L) \<le> d \<or> resolved_scopes L \<noteq> None"
  shows "get_all_scopes_limited d L = (Inr (fst (get_all_scopes L)), snd (get_all_scopes L))"
proof (cases "resolved_scopes L")
  case (Some r)
  then show ?thesis by (simp add: get_all_scopes_limited_def get_all_scopes_def)
next
  case None
  with assms have d: "card (lang_ids L) \<le> d" by simp
  let ?st = "([], (snd (load_config L))\<lparr>resolved_scopes := Some []\<rparr>)"
  have "lang_ids (snd ?st) = lang_ids L" by (simp add: lang_ids_eq)
  with d have "card (lang_ids (snd ?st)) \<le> d" by simp
  from resolve_all_limited_enough[OF this] None show ?thesis
    by (simp add: get_all_scopes_limited_def get_all_scopes_def case_prod_unfold)
qed

lemma chain_id_inj [simp]: "chain_id i = chain_id j \<longleftrightarrow> i = j"
proof
  assume "chain_id i = chain_id j"
  then have "length (chain_id i) = length (chain_id j)" by simp
  then show "i = j" by (simp add: chain_id_def)
qed simp

lemma map_of_chain_aux:
  "i \<in> set js \<Longrightarrow>
   map_of (map (\<lambda>i. (chain_id i, \<lparr>extends = Some (chain_id (Suc i)), scopes = None\<rparr>)) js) (chain_id i)
     = Some \<lparr>extends = Some (chain_id (Suc i)), scopes = None\<rparr>"
  by (induction js) auto

lemma map_of_chain:
  "i < n \<Longrightarrow>
   map_of (chain_languages n) (chain_id i) = Some \<lparr>extends = Some (chain_id (Suc i)), scopes = None\<rparr>"
  unfolding chain_languages_def by (rule map_of_chain_aux) simp

text \<open>
  On a chain of \<open>n\<close> languages the call for the \<open>i\<close>-th one, entered with none of the later
  ones visited, needs \<open>n - i\<close> nested calls: with fewer allowed it raises.
\<close>

lemma chain_raises:
  "i + d < n \<Longrightarrow> loaded_languages L = chain_languages n \<Longrightarrow>
   (\<forall>j. i \<le> j \<longrightarrow> chain_id j \<notin> visited) \<Longrightarrow>
   fst (resolve_language_scopes_limited d L (chain_id i) visited) = Inl RecursionError"
proof (induction d arbitrary: i L visited)
  case 0
  obtain cfg L1 where lc: "load_config L = (cfg, L1)" by (cases "load_config L")
  with "0.prems"(2) have cfg: "get_languages cfg = chain_languages n"
    by (simp add: loaded_languages_def)
  from "0.prems" have nv: "chain_id i \<notin> visited" and i: "i < n" by simp_all
  show ?case
    using nv lc cfg map_of_chain[OF i]
    by (simp add: resolve_language_scopes_limited.simps[of 0 L])
next
  case (Suc d)
  obtain cfg L1 where lc: "load_config L = (cfg, L1)" by (cases "load_config L")
  with Suc.prems(2) have cfg: "get_languages cfg = chain_languages n"
    by (simp add: loaded_languages_def)
  from lc have L1: "L1 = snd (load_config L)" by simp
  from Suc.prems have nv: "chain_id i \<notin> visited" and i: "i < n" by simp_all
  have "fst (resolve_language_scopes_limited d L1 (chain_id (Suc i)) (insert (chain_id i) visited))
      = Inl RecursionError"
  proof (rule Suc.IH)
    show "Suc i + d < n" using Suc.prems(1) by simp
    show "loaded_languages L1 = chain_languages n" using Suc.prems(2) by (simp add: L1)
    show "\<forall>j. Suc i \<le> j \<longrightarrow> chain_id j \<notin> insert (chain_id i) visited"
      using Suc.prems(3) by auto
  qed
  then obtain L2 where
    "resolve_language_scopes_limited d L1 (chain_id (Suc i)) (insert (chain_id i) visited)
      = (Inl RecursionError, L2)"
    by (cases "resolve_language_scopes_limited d L1 (chain_id (Suc i)) (insert (chain_id i) visited)")
      simp
  then show ?case
    using nv lc cfg map_of_chain[OF i]
    by (simp add: resolve_language_scopes_limited.simps[of "Suc d" L])
qed

lemma loaded_languages_chain: "loaded_languages (chain_loader n) = chain_languages n"
  by (simp add: chain_loader_def loaded_languages_new)

lemma chain_lookup_raises:
  assumes "d < n"
  shows "fst (is_node_type_in_scope d (chain_loader n) lang_id node_type scope) = Inl RecursionError"
proof -
  obtain L1 where lc: "load_config (chain_loader n) = (\<lparr>languages = Some (chain_languages n)\<rparr>, L1)"
    by (simp add: chain_loader_def new_loader_def load_config_def)
  then have L1: "L1 = snd (load_config (chain_loader n))" by simp
  from assms have "[0..<n] = 0 # [Suc 0..<n]" by (simp add: upt_conv_Cons)
  then have keys: "map fst (chain_languages n) = chain_id 0 # map chain_id [Suc 0..<n]"
    by (simp add: chain_languages_def comp_def)
  have "fst (resolve_language_scopes_limited d (L1\<lparr>resolved_scopes := Some []\<rparr>) (chain_id 0) {})
      = Inl RecursionError"
    using assms by (intro chain_raises[of 0 d n]) (simp_all add: L1 loaded_languages_chain)
  then obtain L2 where
    "resolve_language_scopes_limited d (L1\<lparr>resolved_scopes := Some []\<rparr>) (chain_id 0) {}
      = (Inl RecursionError, L2)"
    by (cases "resolve_language_scopes_limited d (L1\<lparr>resolved_scopes := Some []\<rparr>) (chain_id 0) {}")
      simp
  then have "get_all_scopes_limited d (chain_loader n) = (Inl RecursionError, L2)"
    using lc keys
    by (simp add: get_all_scopes_limited_def chain_loader_def new_loader_def get_languages_def)
  then show ?thesis
    by (simp add: is_node_type_in_scope_def get_language_scopes_limited_def)
qed

text \<open>
  C10, as the code has it: \<open>is_node_type_in_scope\<close> raises exactly when the lookup of the
  language raises, and otherwise returns a boolean, true exactly when the cached mapping of the
  language lists the node type under the scope name; so it returns False for a language
  whose mapping is \<open>None\<close> or empty and for a scope name the mapping lacks. The lookup does not
  raise when the cache is filled already, or when the interpreter allows as many nested calls
  of \<open>resolve_language_scopes\<close> as the configuration has language ids; then the result is
  that of the functions without the limit, and it is False for a language id that the
  configuration does not define.
\<close>

theorem is_node_type_in_scope_total:
  "fst (is_node_type_in_scope d L lang_id node_type scope) =
     (case fst (get_language_scopes_limited d L lang_id) of
        Inl e \<Rightarrow> Inl e
      | Inr ls \<Rightarrow> Inr (\<exists>m ts. ls = Some m \<and> map_of m scope = Some ts \<and> node_type \<in> set ts)) \<and>
   snd (is_node_type_in_scope d L lang_id node_type scope) = snd (get_all_scopes_limited d L) \<and>
   (fst (get_language_scopes_limited d L lang_id) = Inr None \<or>
    fst (get_language_scopes_limited d L lang_id) = Inr (Some []) \<or>
    (\<exists>m. fst (get_language_scopes_limited d L lang_id) = Inr (Some m) \<and> map_of m scope = None)
    \<longrightarrow> fst (is_node_type_in_scope d L lang_id node_type scope) = Inr False) \<and>
   (card (lang_ids L) \<le> d \<or> resolved_scopes L \<noteq> None \<longrightarrow>
      get_language_scopes_limited d L lang_id =
        (Inr (fst (get_language_scopes L lang_id)), snd (get_language_scopes L lang_id)) \<and>
      (\<exists>b. fst (is_node_type_in_scope d L lang_id node_type scope) = Inr b)) \<and>
   (card (lang_ids L) \<le> d \<and> resolved_scopes L = None \<and> map_of (loaded_languages L) lang_id = None
    \<longrightarrow> fst (is_node_type_in_scope d L lang_id node_type scope) = Inr False)"
proof -
  obtain r L' where g: "get_language_scopes_limited d L lang_id = (r, L')"
    by (cases "get_language_scopes_limited d L lang_id")
  have char: "fst (is_node_type_in_scope d L lang_id node_type scope) =
     (case fst (get_language_scopes_limited d L lang_id) of
        Inl e \<Rightarrow> Inl e
      | Inr ls \<Rightarrow> Inr (\<exists>m ts. ls = Some m \<and> map_of m scope = Some ts \<and> node_type \<in> set ts))"
  proof (cases r)
    case (Inl e)
    with g show ?thesis by (simp add: is_node_type_in_scope_def)
  next
    case (Inr ls)
    show ?thesis
    proof (cases ls)
      case None
      with g Inr show ?thesis by (simp add: is_node_type_in_scope_def)
    next
      case (Some m)
      with g Inr show ?thesis
        by (cases "map_of m scope") (auto simp: is_node_type_in_scope_def)
    qed
  qed
  have st: "snd (is_node_type_in_scope d L lang_id node_type scope) = snd (get_all_scopes_limited d L)"
    by (cases "get_all_scopes_limited d L")
      (simp add: is_node_type_in_scope_def get_language_scopes_limited_def
        split: sum.splits option.splits)
  have false_cases: "fst (is_node_type_in_scope d L lang_id node_type scope) = Inr False"
    if "fst (get_language_scopes_limited d L lang_id) = Inr None \<or>
        fst (get_language_scopes_limited d L lang_id) = Inr (Some []) \<or>
        (\<exists>m. fst (get_language_scopes_limited d L lang_id) = Inr (Some m) \<and> map_of m scope = None)"
    using that by (auto simp: char)
  have bridge: "get_language_scopes_limited d L lang_id =
        (Inr (fst (get_language_scopes L lang_id)), snd (get_language_scopes L lang_id))"
    if "card (lang_ids L) \<le> d \<or> resolved_scopes L \<noteq> None"
    using get_all_scopes_limited_enough[OF that]
    by (simp add: get_language_scopes_limited_def get_language_scopes_def case_prod_unfold)
  have returns: "\<exists>b. fst (is_node_type_in_scope d L lang_id node_type scope) = Inr b"
    if "card (lang_ids L) \<le> d \<or> resolved_scopes L \<noteq> None"
    using bridge[OF that] by (simp add: char)
  have unknown: "fst (is_node_type_in_scope d L lang_id node_type scope) = Inr False"
    if "card (lang_ids L) \<le> d \<and> resolved_scopes L = None \<and> map_of (loaded_languages L) lang_id = None"
  proof -
    from that have "lang_id \<notin> lang_ids L"
      by (simp add: lang_ids_eq map_of_eq_None_iff)
    with that have "fst (get_language_scopes L lang_id) = None"
      by (simp add: get_language_scopes_fresh)
    with bridge that show ?thesis by (simp add: char)
  qed
  from char st false_cases bridge returns unknown show ?thesis by blast
qed

lemma example_ids: "card (lang_ids example_loader) = 5"
  by (simp add: lang_ids_eq loaded_languages_example example_languages_def)

lemma example_plain: "fst (get_language_scopes example_loader ''plain'') = Some []"
proof -
  have "''plain'' \<in> lang_ids example_loader"
    by (simp add: lang_ids_eq loaded_languages_example example_languages_def)
  moreover have "fst (resolve_language_scopes example_loader ''plain'' {}) = []"
    by (simp add: resolve_language_scopes.simps example_loader_def new_loader_def
        example_languages_def load_config_def get_languages_def)
  ultimately show ?thesis
    by (simp add: get_language_scopes_fresh example_loader_fresh)
qed

theorem is_node_type_in_scope_total_witness:
  "card (lang_ids example_loader) \<le> 5 \<and>
   map_of (loaded_languages example_loader) ''cobol'' = None \<and>
   fst (is_node_type_in_scope 5 example_loader ''cobol'' ''function_declaration'' ''func'') = Inr False \<and>
   fst (get_language_scopes_limited 5 example_loader ''plain'') = Inr (Some []) \<and>
   fst (is_node_type_in_scope 5 example_loader ''plain'' ''function_declaration'' ''func'') = Inr False \<and>
   fst (is_node_type_in_scope 5 example_loader ''typescript'' ''for_statement'' ''loop'') = Inr False \<and>
   fst (is_node_type_in_scope 5 example_loader ''typescript'' ''arrow_function'' ''func'') = Inr True"
proof -
  have enough: "card (lang_ids example_loader) \<le> 5" by (simp add: example_ids)
  have cobol: "map_of (loaded_languages example_loader) ''cobol'' = None"
    by (simp add: loaded_languages_example example_languages_def)
  have ts: "fst (get_language_scopes example_loader ''typescript'') =
     Some [(''func'', [''function_declaration'', ''arrow_function'', ''method_signature'']),
           (''class'', [''class_declaration'']),
           (''iface'', [''interface_declaration''])]"
    by (simp add: get_language_scopes_fresh example_loader_fresh example_typescript lang_ids_eq
        loaded_languages_example example_languages_def)
  have 1: "fst (is_node_type_in_scope 5 example_loader ''cobol'' ''function_declaration'' ''func'') = Inr False"
    using is_node_type_in_scope_total[of 5 example_loader "''cobol''" "''function_declaration''" "''func''"]
      enough cobol example_loader_fresh by blast
  note plain = is_node_type_in_scope_total[of 5 example_loader "''plain''" "''function_declaration''" "''func''"]
  from plain enough have "get_language_scopes_limited 5 example_loader ''plain'' =
      (Inr (fst (get_language_scopes example_loader ''plain'')), snd (get_language_scopes example_loader ''plain''))"
    by blast
  then have 2: "fst (get_language_scopes_limited 5 example_loader ''plain'') = Inr (Some [])"
    by (simp add: example_plain)
  with plain have 3: "fst (is_node_type_in_scope 5 example_loader ''plain'' ''function_declaration'' ''func'') = Inr False"
    by blast
  note loop = is_node_type_in_scope_total[of 5 example_loader "''typescript''" "''for_statement''" "''loop''"]
  from loop enough have tsl: "get_language_scopes_limited 5 example_loader ''typescript'' =
      (Inr (fst (get_language_scopes example_loader ''typescript'')), snd (get_language_scopes example_loader ''typescript''))"
    by blast
  then have "\<exists>m. fst (get_language_scopes_limited 5 example_loader ''typescript'') = Inr (Some m) \<and> map_of m ''loop'' = None"
    by (simp add: ts)
  with loop have 4: "fst (is_node_type_in_scope 5 example_loader ''typescript'' ''for_statement'' ''loop'') = Inr False"
    by blast
  note func = is_node_type_in_scope_total[of 5 example_loader "''typescript''" "''arrow_function''" "''func''"]
  from func have "fst (is_node_type_in_scope 5 example_loader ''typescript'' ''arrow_function'' ''func'') =
     (case fst (get_language_scopes_limited 5 example_loader ''typescript'') of
        Inl e \<Rightarrow> Inl e
      | Inr ls \<Rightarrow> Inr (\<exists>m ts. ls = Some m \<and> map_of m ''func'' = Some ts \<and> ''arrow_function'' \<in> set ts))"
    by blast
  then have 5: "fst (is_node_type_in_scope 5 example_loader ''typescript'' ''arrow_function'' ''func'') = Inr True"
    by (simp add: tsl ts)
  from enough cobol 1 2 3 4 5 show ?thesis by blast
qed

text \<open>
  C10 as stated fails: \<open>is_node_type_in_scope\<close> is not total. On a configuration of 1001
  languages in one chain, with 1000 nested calls allowed, the first call raises
  \<open>RecursionError\<close>.
\<close>

theorem is_node_type_in_scope_raises:
  "fst (is_node_type_in_scope 1000 (chain_loader 1001) ''x'' ''function_definition'' ''func'')
     = Inl RecursionError"
  by (rule chain_lookup_raises) simp

text \<open>
  A call that raises leaves the cache partly filled, and later calls answer from it: with one
  nested call allowed, the example configuration raises at the language \<open>a\<close>, after
  \<open>javascript\<close> and \<open>typescript\<close> have been stored.
\<close>

lemma failed_call_leaves_partial_cache:
  "fst (is_node_type_in_scope 1 example_loader ''typescript'' ''arrow_function'' ''func'')
     = Inl RecursionError \<and>
   map_option (map fst)
     (resolved_scopes (snd (is_node_type_in_scope 1 example_loader ''typescript'' ''arrow_function'' ''func'')))
     = Some [''javascript'', ''typescript''] \<and>
   fst (is_node_type_in_scope 1
         (snd (is_node_type_in_scope 1 example_loader ''typescript'' ''arrow_function'' ''func''))
         ''typescript'' ''arrow_function'' ''func'') = Inr True \<and>
   fst (is_node_type_in_scope 1
         (snd (is_node_type_in_scope 1 example_loader ''typescript'' ''arrow_function'' ''func''))
         ''a'' ''fa'' ''func'') = Inr False"
  by code_simp

text \<open>
  C2, as the code has it: for a language whose \<open>extends\<close> chain leads back to it, resolution
  terminates (the recursion limit of one call per language id is not hit), the nested call
  that meets the language again returns the empty mapping together with the
  circular-dependency diagnostic for it, and that diagnostic is the one thing the whole
  resolution prints. The result of the outer call is not emptied: every own entry of the
  language is in it, after whatever the chain contributed.
\<close>

theorem cyclic_language_resolution:
  assumes "0 < k" and "ancestor (loaded_languages L) k lang_id = Some lang_id"
    and "map_of (loaded_languages L) lang_id = Some lc"
    and "distinct (map fst (own_scopes lc))"
  shows "(\<forall>L' visited. lang_id \<in> visited \<longrightarrow>
            resolve_language_scopes L' lang_id visited =
              ([], L'\<lparr>printed := printed L' @ [CircularDependency lang_id]\<rparr>)) \<and>
         printed (snd (resolve_language_scopes L lang_id {})) = printed L @ [CircularDependency lang_id] \<and>
         resolve_depth_limited (card (lang_ids L)) L lang_id {} = Some (resolve_language_scopes L lang_id {}) \<and>
         (\<forall>name vs. map_of (own_scopes lc) name = Some vs \<longrightarrow>
            (\<exists>inherited. map_of (fst (resolve_language_scopes L lang_id {})) name = Some (inherited @ vs)))"
proof -
  have nv: "lang_id \<notin> {}" by simp
  obtain parent where ext: "extends lc = Some parent"
  proof (cases k)
    case 0
    with assms(1) show ?thesis by simp
  next
    case (Suc n)
    with assms(2,3) have "extends lc \<noteq> None" by (auto split: option.splits)
    then show ?thesis using that by auto
  qed
  have own: "\<exists>inherited. map_of (fst (resolve_language_scopes L lang_id {})) name = Some (inherited @ vs)"
    if "map_of (own_scopes lc) name = Some vs" for name vs
    using that by (simp add: resolve_child[OF nv assms(3) ext] map_of_with_own[OF assms(4)])
  have depth: "resolve_depth_limited (card (lang_ids L)) L lang_id {} = Some (resolve_language_scopes L lang_id {})"
    using depth_limit_enough[of L "{}" "card (lang_ids L)" lang_id] by simp
  from own depth cycle_diagnostic[OF assms(1,2)] show ?thesis
    by (simp add: resolve_visited)
qed

lemma example_a:
  "fst (resolve_language_scopes example_loader ''a'' {}) = [(''func'', [''fb'', ''fa''])]"
  by (simp add: resolve_language_scopes.simps example_loader_def new_loader_def
      example_languages_def load_config_def get_languages_def apply_scopes_def apply_scope_def
      copy_scopes_def)

lemma example_a_cycle: "ancestor (loaded_languages example_loader) 2 ''a'' = Some ''a''"
  by (simp add: loaded_languages_example example_languages_def numeral_2_eq_2)

theorem cyclic_language_resolution_witness:
  "ancestor (loaded_languages example_loader) 2 ''a'' = Some ''a'' \<and>
   printed (snd (resolve_language_scopes example_loader ''a'' {})) = [CircularDependency ''a''] \<and>
   resolve_language_scopes example_loader ''a'' {''a'', ''b''} =
     ([], example_loader\<lparr>printed := [CircularDependency ''a'']\<rparr>) \<and>
   (\<exists>inherited. map_of (fst (resolve_language_scopes example_loader ''a'' {})) ''func'' = Some (inherited @ [''fa'']))"
proof -
  let ?lc = "\<lparr>extends = Some ''b'', scopes = Some [(''func'', [''fa''])]\<rparr>"
  have look: "map_of (loaded_languages example_loader) ''a'' = Some ?lc"
    by (simp add: loaded_languages_example example_languages_def)
  have keys: "distinct (map fst (own_scopes ?lc))" by (simp add: own_scopes_def)
  have pr: "printed example_loader = []" by (simp add: example_loader_def new_loader_def)
  have own: "map_of (own_scopes ?lc) ''func'' = Some [''fa'']" by (simp add: own_scopes_def)
  from cyclic_language_resolution[OF _ example_a_cycle look keys] pr own show ?thesis
    by (simp add: example_a_cycle)
qed

text \<open>
  C2 as stated fails: the language \<open>a\<close> extends \<open>b\<close>, which extends \<open>a\<close>, and \<open>a\<close> resolves to
  the entries of both, not to the empty mapping.
\<close>

theorem cyclic_language_not_empty:
  "ancestor (loaded_languages example_loader) 2 ''a'' = Some ''a'' \<and>
   fst (resolve_language_scopes example_loader ''a'' {}) = [(''func'', [''fb'', ''fa''])] \<and>
   fst (resolve_language_scopes example_loader ''a'' {}) \<noteq> []"
  by (simp add: example_a example_a_cycle)

section \<open>The permission timeline builder (specification, sections 3, 4.3 and 4.4)\<close>

text \<open>
  The tag scanner, the span locator and the timeline builder are not among the Python sources
  (the directory \<open>src/tests\<close> holds their fixtures only), so this part follows the
  specification of the component.
\<close>

subsection \<open>Data\<close>

text \<open>Modelled from the spec: ActorKey, a kind and an optional identifier (section 3).\<close>

type_synonym actor_key = "string \<times> string option"

text \<open>
  Modelled from the spec: Permission, one of Read, Write, None and Context (section 3);
  \<open>NoAccess\<close> is the permission None.
\<close>

datatype permission = Read | Write | NoAccess | Context

text \<open>Modelled from the spec: ScopeSpec (section 3).\<close>

datatype scope_spec = Unbounded | LineCount nat | Semantic string

text \<open>Modelled from the spec: Anchor (section 3).\<close>

datatype anchor = StandaloneComment | InlineTrailing

text \<open>Modelled from the spec: GuardTag (section 3), the output of the absent tag scanner.\<close>

record guard_tag =
  line :: nat
  actor :: actor_key
  permission :: permission
  scope :: scope_spec
  anchor :: anchor

text \<open>
  Modelled from the spec: Region (section 3), one governance interval of one actor. The end
  \<open>None\<close> is the unbounded end; \<open>restores_to\<close> is the region that was current before, so
  that a region is the top of its actor's implicit stack.
\<close>

datatype region =
  Region (region_permission: permission) (start_line: nat) (end_line: "nat option")
    (restores_to: "region option")

text \<open>
  Modelled from the spec: the value of the Timeline at a line, a permission or the implicit
  unguarded state (section 3).
\<close>

datatype line_state = Unguarded | Governed permission

text \<open>
  Modelled from the spec: what the builder is given about one file. \<open>last_line\<close> is the
  number of the file's last line (lines count from 1) and \<open>tags\<close> the scanner's output in
  file order. The two lexical and syntactic judgements that sections 4.1 and 4.3 leave to
  collaborators are parameters: \<open>locate t\<close> is the span that the Semantic Span Locator finds
  for a semantic tag in the external syntax tree (\<open>None\<close> when unresolved), and
  \<open>documentation t l\<close> says that line \<open>l\<close> is a documentation line for tag \<open>t\<close>: a comment
  line of the tag's comment style, or a line of the string-literal doc block that begins on
  the next non-blank line.
\<close>

record document =
  last_line :: nat
  tags :: "guard_tag list"
  locate :: "guard_tag \<Rightarrow> (nat \<times> nat) option"
  documentation :: "guard_tag \<Rightarrow> nat \<Rightarrow> bool"

subsection \<open>Operations\<close>

text \<open>
  Modelled from the spec: the extent of a Context tag (section 4.3), the length of the maximal
  run of documentation lines that starts on the line after the tag; the first line that is not
  documentation ends the run and is excluded.
\<close>

definition context_run :: "document \<Rightarrow> guard_tag \<Rightarrow> nat" where
  "context_run d t = length (takeWhile (documentation d t) [Suc (line t) ..< Suc (last_line d)])"

text \<open>
  Modelled from the spec: the end of the span \<open>[L, end]\<close> of a tag on line \<open>L\<close> (sections 4.3
  and 4.4, steps 3 and 4). A Context tag ends with its documentation run. \<open>LineCount n\<close> ends at
  \<open>L + n\<close> for a standalone tag, whose own line is not counted; for an inline trailing tag
  the count extends from the tag's own line, which is read here as the \<open>n\<close> lines \<open>L\<close> to
  \<open>L + n - 1\<close>; either end is clamped to the last line. A semantic tag ends where the locator
  says, and degrades to unbounded when the locator reports nothing.
\<close>

definition resolved_end :: "document \<Rightarrow> guard_tag \<Rightarrow> nat option" where
  "resolved_end d t =
     (if permission t = Context then Some (line t + context_run d t)
      else
        (case scope t of
           Unbounded \<Rightarrow> None
         | LineCount n \<Rightarrow>
             Some (min (case anchor t of
                          StandaloneComment \<Rightarrow> line t + n
                        | InlineTrailing \<Rightarrow> line t + n - 1)
                       (last_line d))
         | Semantic name \<Rightarrow> (case locate d t of None \<Rightarrow> None | Some (first, lst) \<Rightarrow> Some lst)))"

text \<open>
  Modelled from the spec: the pop of section 4.4. On line \<open>l\<close>, while the end of the current
  region has been passed, the current region becomes the one it restores to.
\<close>

fun pop_expired :: "nat \<Rightarrow> region option \<Rightarrow> region option" where
  "pop_expired l None = None"
| "pop_expired l (Some (Region p s None r)) = Some (Region p s None r)"
| "pop_expired l (Some (Region p s (Some e) r)) =
     (if e < l then pop_expired l r else Some (Region p s (Some e) r))"

text \<open>
  Modelled from the spec: steps 1 and 2 of section 4.4. A tag creates a region that starts on
  its line and restores to whatever is current, and that region becomes current.
\<close>

definition push :: "document \<Rightarrow> region option \<Rightarrow> guard_tag \<Rightarrow> region option" where
  "push d cur t = Some (Region (permission t) (line t) (resolved_end d t) cur)"

text \<open>
  Modelled from the spec: the partition by ActorKey of section 4.4; the tags of one actor on
  one line, in source order.
\<close>

definition tags_at :: "document \<Rightarrow> actor_key \<Rightarrow> nat \<Rightarrow> guard_tag list" where
  "tags_at d a l = filter (\<lambda>t. actor t = a \<and> line t = l) (tags d)"

text \<open>
  Modelled from the spec: the work of the builder on one line for one actor (section 4.4):
  the pops that are due, then a push for each of the actor's tags on the line.
\<close>

definition advance :: "document \<Rightarrow> actor_key \<Rightarrow> region option \<Rightarrow> nat \<Rightarrow> region option" where
  "advance d a cur l = foldl (push d) (pop_expired l cur) (tags_at d a l)"

text \<open>
  Modelled from the spec: the single pass over the lines (section 4.4). The current region
  of an actor is \<open>None\<close> before line 1; \<open>current_region d a l\<close> is the current region once
  lines 1 to \<open>l\<close> are done.
\<close>

primrec current_region :: "document \<Rightarrow> actor_key \<Rightarrow> nat \<Rightarrow> region option" where
  "current_region d a 0 = None"
| "current_region d a (Suc l) = advance d a (current_region d a l) (Suc l)"

text \<open>
  Modelled from the spec: the output rule of section 4.4, the permission of the current
  region, or unguarded when there is none.
\<close>

definition state_of :: "region option \<Rightarrow> line_state" where
  "state_of cur = (case cur of None \<Rightarrow> Unguarded | Some r \<Rightarrow> Governed (region_permission r))"

text \<open>Modelled from the spec: the Timeline (section 3), for each actor a function of the line.\<close>

definition timeline :: "document \<Rightarrow> actor_key \<Rightarrow> nat \<Rightarrow> line_state" where
  "timeline d a l = state_of (current_region d a l)"

text \<open>Modelled from the spec: \<open>permission_at\<close> of the query facade (section 4.5).\<close>

definition permission_at :: "(actor_key \<Rightarrow> nat \<Rightarrow> line_state) \<Rightarrow> actor_key \<Rightarrow> nat \<Rightarrow> line_state" where
  "permission_at tml a l = tml a l"

text \<open>The tags of one actor on the lines from \<open>lo\<close> to \<open>hi\<close>, in file order.\<close>

definition tags_between :: "document \<Rightarrow> actor_key \<Rightarrow> nat \<Rightarrow> nat \<Rightarrow> guard_tag list" where
  "tags_between d a lo hi = filter (\<lambda>t. actor t = a \<and> lo \<le> line t \<and> line t \<le> hi) (tags d)"

subsection \<open>The fixtures\<close>

definition ai :: actor_key where
  "ai = (''ai'', None)"

text \<open>A tag that stands on a comment line of its own.\<close>

definition std_tag :: "nat \<Rightarrow> actor_key \<Rightarrow> permission \<Rightarrow> scope_spec \<Rightarrow> guard_tag" where
  "std_tag l a p s = \<lparr>line = l, actor = a, permission = p, scope = s, anchor = StandaloneComment\<rparr>"

text \<open>The tags of \<open>src/tests/debugging/bug-fix-test.py\<close>.\<close>

definition bug_fix_test :: document where
  "bug_fix_test = \<lparr>last_line = 43,
     tags = [std_tag 7 ai Write Unbounded, std_tag 10 ai Read (LineCount 2),
             std_tag 21 ai NoAccess (LineCount 3), std_tag 33 ai Read Unbounded,
             std_tag 36 ai Write (LineCount 1)],
     locate = (\<lambda>t. None), documentation = (\<lambda>t l. False)\<rparr>"

text \<open>The tags of \<open>src/tests/line-count/final-python-test.py\<close>.\<close>

definition final_python_test :: document where
  "final_python_test = \<lparr>last_line = 19,
     tags = [std_tag 6 ai Read (LineCount 3), std_tag 12 ai Write (LineCount 2),
             std_tag 17 ai NoAccess (LineCount 1)],
     locate = (\<lambda>t. None), documentation = (\<lambda>t l. False)\<rparr>"

text \<open>The end-to-end scenario of the specification: six lines, a write tag and \<open>r.2\<close> inside it.\<close>

definition scenario_doc :: document where
  "scenario_doc = \<lparr>last_line = 6,
     tags = [std_tag 1 ai Write Unbounded, std_tag 3 ai Read (LineCount 2)],
     locate = (\<lambda>t. None), documentation = (\<lambda>t l. False)\<rparr>"

text \<open>A count of three declared two lines before the end of a file of ten lines.\<close>

definition clamp_doc :: document where
  "clamp_doc = \<lparr>last_line = 10,
     tags = [std_tag 2 ai Write Unbounded, std_tag 8 ai NoAccess (LineCount 3)],
     locate = (\<lambda>t. None), documentation = (\<lambda>t l. False)\<rparr>"

text \<open>
  The two block tags of \<open>src/tests/test-block-scope-issue.py\<close>, with the spans of the two
  dictionary blocks as the locator would report them.
\<close>

definition block_scope_doc :: document where
  "block_scope_doc = \<lparr>last_line = 26,
     tags = [std_tag 7 (''human'', None) Read (Semantic ''block''),
             std_tag 14 (''human'', None) Read (Semantic ''block'')],
     locate = (\<lambda>t. if line t = 7 then Some (8, 12) else if line t = 14 then Some (15, 19) else None),
     documentation = (\<lambda>t l. False)\<rparr>"


section \<open>Properties of the timeline builder\<close>

lemma pop_expired_open:
  "pop_expired l (Some (Region p s None r)) = Some (Region p s None r)"
  by simp

lemma pop_expired_live:
  "l \<le> e \<Longrightarrow> pop_expired l (Some (Region p s (Some e) r)) = Some (Region p s (Some e) r)"
  by simp

lemma pop_expired_past:
  "e < l \<Longrightarrow> pop_expired l (Some (Region p s (Some e) r)) = pop_expired l r"
  by simp

lemma pop_expired_twice: "m \<le> l \<Longrightarrow> pop_expired l (pop_expired m cur) = pop_expired l cur"
  by (induction m cur rule: pop_expired.induct) auto

lemma tags_at_between:
  "lo \<le> l \<Longrightarrow> l \<le> hi \<Longrightarrow> tags_at d a l = filter (\<lambda>t. line t = l) (tags_between d a lo hi)"
  by (auto simp: tags_at_def tags_between_def intro: filter_cong)

lemma advance_quiet: "tags_at d a l = [] \<Longrightarrow> advance d a cur l = pop_expired l cur"
  by (simp add: advance_def)

lemma advance_single:
  "tags_at d a l = [t] \<Longrightarrow>
   advance d a cur l = Some (Region (permission t) (line t) (resolved_end d t) (pop_expired l cur))"
  by (simp add: advance_def push_def)

lemma quiet_stretch:
  "m \<le> l \<Longrightarrow> (\<forall>k. m < k \<and> k \<le> l \<longrightarrow> tags_at d a k = []) \<Longrightarrow>
   current_region d a l = (if l = m then current_region d a m else pop_expired l (current_region d a m))"
proof (induction l)
  case 0
  then show ?case by simp
next
  case (Suc l)
  show ?case
  proof (cases "Suc l = m")
    case True
    then show ?thesis by simp
  next
    case False
    with Suc.prems have ml: "m \<le> l" by simp
    have q: "tags_at d a (Suc l) = []" using Suc.prems False by simp
    have "current_region d a l = (if l = m then current_region d a m else pop_expired l (current_region d a m))"
      using Suc.IH[OF ml] Suc.prems(2) by simp
    then have "pop_expired (Suc l) (current_region d a l) = pop_expired (Suc l) (current_region d a m)"
      by (simp add: pop_expired_twice)
    with False q show ?thesis by (simp add: advance_quiet)
  qed
qed

lemma quiet_after:
  "m < l \<Longrightarrow> (\<forall>k. m < k \<and> k \<le> l \<longrightarrow> tags_at d a k = []) \<Longrightarrow>
   current_region d a l = pop_expired l (current_region d a m)"
  using quiet_stretch[of m l d a] by simp

lemma single_tag_line:
  "0 < l \<Longrightarrow> tags_at d a l = [t] \<Longrightarrow>
   current_region d a l =
     Some (Region (permission t) (line t) (resolved_end d t) (pop_expired l (current_region d a (l - 1))))"
  by (cases l) (simp_all add: advance_single)

text \<open>
  The life of one region: created on its tag's line over the state restored there, current
  while no other tag of the actor comes and its end is not passed, and popped to the state
  before it on the first line past its end.
\<close>

lemma region_start:
  assumes "0 < L" and "tags_at d a L = [t]"
  shows "current_region d a L = push d (pop_expired L (current_region d a (L - 1))) t"
  using single_tag_line[OF assms] by (simp add: push_def)

lemma region_in_force:
  assumes L: "0 < L" and at: "tags_at d a L = [t]" and e: "resolved_end d t = Some e"
    and quiet: "\<forall>k. L < k \<and> k \<le> l \<longrightarrow> tags_at d a k = []"
    and l: "L \<le> l" "l \<le> e"
  shows "current_region d a l = push d (pop_expired L (current_region d a (L - 1))) t"
proof (cases "l = L")
  case True
  with region_start[OF L at] show ?thesis by simp
next
  case False
  with l have "L < l" by simp
  then have "current_region d a l = pop_expired l (current_region d a L)"
    using quiet by (rule quiet_after)
  with region_start[OF L at] e l show ?thesis by (simp add: push_def)
qed

lemma region_elapsed:
  assumes L: "0 < L" and at: "tags_at d a L = [t]" and e: "resolved_end d t = Some e"
    and quiet: "\<forall>k. L < k \<and> k \<le> l \<longrightarrow> tags_at d a k = []"
    and l: "L < l" "e < l"
  shows "current_region d a l = pop_expired l (current_region d a (L - 1))"
proof -
  have "current_region d a l = pop_expired l (current_region d a L)"
    using l(1) quiet by (rule quiet_after)
  also have "\<dots> = pop_expired l (pop_expired L (current_region d a (L - 1)))"
    using region_start[OF L at] e l(2) by (simp add: push_def)
  also have "\<dots> = pop_expired l (current_region d a (L - 1))"
    using l(1) by (simp add: pop_expired_twice)
  finally show ?thesis .
qed

lemma pop_expired_size: "size_option size (pop_expired l cur) \<le> size_option size cur"
  by (induction l cur rule: pop_expired.induct) auto

lemma region_not_restored: "pop_expired l cur \<noteq> Some (Region p s e (pop_expired m cur))" if "m \<le> l"
proof
  assume eq: "pop_expired l cur = Some (Region p s e (pop_expired m cur))"
  have "size_option size (pop_expired l (pop_expired m cur)) \<le> size_option size (pop_expired m cur)"
    by (rule pop_expired_size)
  then have "size_option size (pop_expired l cur) \<le> size_option size (pop_expired m cur)"
    using that by (simp add: pop_expired_twice)
  with eq show False by simp
qed

lemma tags_at_only:
  assumes "tags_between d a lo hi = [t]" "lo \<le> l" "l \<le> hi"
  shows "tags_at d a l = (if line t = l then [t] else [])"
  using assms by (simp add: tags_at_between[of lo l hi])

lemma tags_between_member:
  "tags_between d a lo hi = [t] \<Longrightarrow> actor t = a \<and> lo \<le> line t \<and> line t \<le> hi"
proof -
  assume "tags_between d a lo hi = [t]"
  then have "t \<in> set (tags_between d a lo hi)" by simp
  then show ?thesis by (simp add: tags_between_def)
qed

text \<open>A bounded region alone on its stretch: current exactly from its line to its end.\<close>

lemma lone_region:
  assumes L: "0 < line t" and e: "resolved_end d t = Some e" and Le: "line t \<le> e"
    and only: "tags_between d a (line t) (Suc e) = [t]"
  shows "\<forall>l. line t \<le> l \<and> l \<le> Suc e \<longrightarrow>
           (current_region d a l = push d (pop_expired (line t) (current_region d a (line t - 1))) t
              \<longleftrightarrow> l \<le> e)"
    and "\<forall>l. line t \<le> l \<and> l \<le> e \<longrightarrow> timeline d a l = Governed (permission t)"
    and "current_region d a (Suc e) = pop_expired (Suc e) (current_region d a (line t - 1))"
proof -
  let ?prior = "current_region d a (line t - 1)"
  have at: "tags_at d a (line t) = [t]"
    using tags_at_only[OF only, of "line t"] Le by simp
  have quiet: "\<forall>k. line t < k \<and> k \<le> Suc e \<longrightarrow> tags_at d a k = []"
    using tags_at_only[OF only] by simp
  have in_force: "current_region d a l = push d (pop_expired (line t) ?prior) t"
    if "line t \<le> l" "l \<le> e" for l
    using region_in_force[OF L at e _ that] quiet that by simp
  have after: "current_region d a (Suc e) = pop_expired (Suc e) ?prior"
    using region_elapsed[OF L at e quiet] Le by simp
  have gone: "current_region d a (Suc e) \<noteq> push d (pop_expired (line t) ?prior) t"
    unfolding after push_def using region_not_restored[of "line t" "Suc e" ?prior] Le by simp
  show "\<forall>l. line t \<le> l \<and> l \<le> Suc e \<longrightarrow>
           (current_region d a l = push d (pop_expired (line t) ?prior) t \<longleftrightarrow> l \<le> e)"
  proof (intro allI impI)
    fix l assume l: "line t \<le> l \<and> l \<le> Suc e"
    show "current_region d a l = push d (pop_expired (line t) ?prior) t \<longleftrightarrow> l \<le> e"
    proof (cases "l \<le> e")
      case True
      with l in_force show ?thesis by simp
    next
      case False
      with l have "l = Suc e" by simp
      with gone False show ?thesis by simp
    qed
  qed
  show "\<forall>l. line t \<le> l \<and> l \<le> e \<longrightarrow> timeline d a l = Governed (permission t)"
    using in_force by (simp add: timeline_def state_of_def push_def)
  show "current_region d a (Suc e) = pop_expired (Suc e) ?prior" by (rule after)
qed

text \<open>The model on the fixtures: the lines carry the states that the fixtures' comments announce.\<close>

lemma bug_fix_fixture:
  "map (timeline bug_fix_test ai) [11, 12, 13, 16, 19, 22, 23, 24, 25, 28, 31, 34, 37, 38, 43] =
     [Governed Read, Governed Read, Governed Write, Governed Write, Governed Write,
      Governed NoAccess, Governed NoAccess, Governed NoAccess, Governed Write, Governed Write,
      Governed Write, Governed Read, Governed Write, Governed Read, Governed Read]"
  by code_simp

lemma final_python_fixture:
  "map (timeline final_python_test ai) [4, 7, 8, 9, 10, 13, 14, 15, 18, 19] =
     [Unguarded, Governed Read, Governed Read, Governed Read, Unguarded,
      Governed Write, Governed Write, Unguarded, Governed NoAccess, Unguarded]"
  by code_simp

lemma tags_at_actor:
  "tags_at d a l = filter (\<lambda>t. line t = l) (filter (\<lambda>t. actor t = a) (tags d))"
  by (simp add: tags_at_def conj_commute)

text \<open>
  C1: in a file whose tags for the actor \<open>("ai", None)\<close> are an unbounded \<open>w\<close> on line 1 and
  \<open>r.2\<close> on line 3, the timeline of that actor reports Read on lines 4 and 5 and Write on
  every line from 6 on: when the bounded region elapses the enclosing region's permission
  comes back, not the unguarded state.
\<close>

theorem nested_line_count_restores_write:
  assumes only: "filter (\<lambda>t. actor t = (''ai'', None)) (tags d) = [t1, t2]"
    and t1: "line t1 = 1" "permission t1 = Write" "scope t1 = Unbounded"
    and t2: "line t2 = 3" "permission t2 = Read" "scope t2 = LineCount 2"
      "anchor t2 = StandaloneComment"
  shows "(\<forall>l. (l = 4 \<or> l = 5) \<and> l \<le> last_line d \<longrightarrow> timeline d (''ai'', None) l = Governed Read) \<and>
         (\<forall>l. 6 \<le> l \<longrightarrow> timeline d (''ai'', None) l = Governed Write) \<and>
         (\<forall>l. 6 \<le> l \<longrightarrow> timeline d (''ai'', None) l \<noteq> Unguarded) \<and>
         timeline d (''ai'', None) 1 = Governed Write \<and>
         timeline d (''ai'', None) 2 = Governed Write \<and>
         timeline d (''ai'', None) 3 = Governed Read"
proof -
  let ?a = "(''ai'', None) :: actor_key"
  let ?e = "min 5 (last_line d)"
  let ?R1 = "Region Write 1 None None"
  let ?R2 = "Region Read 3 (Some ?e) (Some ?R1)"
  have at: "tags_at d ?a l = filter (\<lambda>t. line t = l) [t1, t2]" for l
    by (simp add: tags_at_actor only)
  have at1: "tags_at d ?a 1 = [t1]" and at3: "tags_at d ?a 3 = [t2]"
    by (simp_all add: at t1 t2)
  have at2: "tags_at d ?a 2 = []" by (simp add: at t1 t2)
  have later: "tags_at d ?a k = []" if "3 < k" for k
    using that by (simp add: at t1 t2)
  have e1: "resolved_end d t1 = None" by (simp add: resolved_end_def t1)
  have e2: "resolved_end d t2 = Some ?e" by (simp add: resolved_end_def t2)
  have c1: "current_region d ?a 1 = Some ?R1"
    using region_start[of 1 d ?a t1] at1 by (simp add: push_def e1 t1)
  have q12: "\<forall>k. 1 < k \<and> k \<le> 2 \<longrightarrow> tags_at d ?a k = []"
  proof (intro allI impI)
    fix k :: nat
    assume "1 < k \<and> k \<le> 2"
    then have "k = 2" by arith
    with at2 show "tags_at d ?a k = []" by simp
  qed
  have "current_region d ?a 2 = pop_expired 2 (current_region d ?a 1)"
    by (rule quiet_after[OF _ q12]) simp
  with c1 have c2: "current_region d ?a 2 = Some ?R1"
    by simp
  have c3: "current_region d ?a 3 = Some ?R2"
    using region_start[of 3 d ?a t2] at3 c2 by (simp add: push_def e2 t2)
  have rest: "current_region d ?a l = (if ?e < l then Some ?R1 else Some ?R2)" if "3 < l" for l
    using quiet_after[of 3 l d ?a] that later c3 by simp
  have r45: "timeline d ?a l = Governed Read" if "l = 4 \<or> l = 5" "l \<le> last_line d" for l
    using that rest[of l] by (auto simp: timeline_def state_of_def)
  have r6: "timeline d ?a l = Governed Write" if "6 \<le> l" for l
    using that rest[of l] by (simp add: timeline_def state_of_def)
  from r45 r6 c1 c2 c3 show ?thesis
    by (simp add: timeline_def state_of_def)
qed

theorem nested_line_count_restores_write_witness:
  "timeline scenario_doc (''ai'', None) 4 = Governed Read \<and>
   timeline scenario_doc (''ai'', None) 5 = Governed Read \<and>
   timeline scenario_doc (''ai'', None) 6 = Governed Write"
proof -
  have "filter (\<lambda>t. actor t = (''ai'', None)) (tags scenario_doc)
      = [std_tag 1 ai Write Unbounded, std_tag 3 ai Read (LineCount 2)]"
    by (simp add: scenario_doc_def std_tag_def ai_def)
  from nested_line_count_restores_write[OF this]
  show ?thesis by (simp add: std_tag_def scenario_doc_def)
qed

lemma tags_between_narrow:
  "lo \<le> lo' \<Longrightarrow> hi' \<le> hi \<Longrightarrow>
   tags_between d a lo' hi' = filter (\<lambda>t. lo' \<le> line t \<and> line t \<le> hi') (tags_between d a lo hi)"
  by (auto simp: tags_between_def intro: filter_cong)

text \<open>
  C4: a standalone tag on line \<open>L\<close> of the file with scope \<open>LineCount n\<close> (and a permission
  other than Context, whose extent is the documentation run), the only tag of its actor from
  its line to the line after its extent, creates a region that ends on
  \<open>min (L + n) last\<close>. On the lines after \<open>L\<close> that region is the current one exactly up to that
  end, where the tag's permission is reported; on the next line it has been popped to the
  state from before the tag. The count starts after the tag's own line, and an extent
  reaching past the file ends at the last line.
\<close>

theorem line_count_region_extent:
  assumes "0 < line t" and "line t \<le> last_line d"
    and "anchor t = StandaloneComment" and "scope t = LineCount n" and "permission t \<noteq> Context"
    and "tags_between d a (line t) (Suc (min (line t + n) (last_line d))) = [t]"
  shows "resolved_end d t = Some (min (line t + n) (last_line d)) \<and>
         (\<forall>l. line t < l \<and> l \<le> Suc (min (line t + n) (last_line d)) \<longrightarrow>
            (current_region d a l = push d (pop_expired (line t) (current_region d a (line t - 1))) t
               \<longleftrightarrow> l \<le> min (line t + n) (last_line d))) \<and>
         (\<forall>l. line t < l \<and> l \<le> min (line t + n) (last_line d) \<longrightarrow>
            timeline d a l = Governed (permission t)) \<and>
         current_region d a (Suc (min (line t + n) (last_line d)))
           = pop_expired (Suc (min (line t + n) (last_line d))) (current_region d a (line t - 1))"
proof -
  let ?e = "min (line t + n) (last_line d)"
  have e: "resolved_end d t = Some ?e"
    using assms(3,4,5) by (simp add: resolved_end_def)
  have Le: "line t \<le> ?e" using assms(2) by simp
  note lone = lone_region[OF assms(1) e Le assms(6)]
  from e lone show ?thesis by auto
qed

theorem line_count_region_extent_witness:
  "resolved_end clamp_doc (std_tag 8 ai NoAccess (LineCount 3)) = Some 10 \<and>
   timeline clamp_doc ai 9 = Governed NoAccess \<and>
   timeline clamp_doc ai 10 = Governed NoAccess"
proof -
  let ?t = "std_tag 8 ai NoAccess (LineCount 3)"
  have only: "tags_between clamp_doc ai (line ?t) (Suc (min (line ?t + 3) (last_line clamp_doc))) = [?t]"
    by (simp add: tags_between_def clamp_doc_def std_tag_def)
  have "0 < line ?t" "line ?t \<le> last_line clamp_doc" "anchor ?t = StandaloneComment"
    "scope ?t = LineCount 3" "permission ?t \<noteq> Context"
    by (simp_all add: std_tag_def clamp_doc_def)
  from line_count_region_extent[OF this only]
  show ?thesis by (simp add: std_tag_def clamp_doc_def)
qed





text \<open>
  C3: two bounded tags of one actor, the second on a line after the end of the first
  region and no other tag of the actor from the first tag's line to the line after the
  second region's end. Each permission is reported on the tag's own resolved range; between
  the two and after the second the state is the one from before the first tag with the
  regions that have ended since popped; the second region restores to the state that is
  current on its line once the first region is popped, never to the first region.
\<close>

theorem sibling_regions_independent:
  assumes L1: "0 < line t1"
    and bounded: "scope t1 \<noteq> Unbounded" "scope t2 \<noteq> Unbounded"
    and e1: "resolved_end d t1 = Some e1" and e2: "resolved_end d t2 = Some e2"
    and order: "line t1 \<le> e1" "e1 < line t2" "line t2 \<le> e2"
    and only: "tags_between d a (line t1) (Suc e2) = [t1, t2]"
  shows "(\<forall>l. line t1 \<le> l \<and> l \<le> e1 \<longrightarrow> timeline d a l = Governed (permission t1)) \<and>
         (\<forall>l. e1 < l \<and> l < line t2 \<longrightarrow>
            current_region d a l = pop_expired l (current_region d a (line t1 - 1))) \<and>
         current_region d a (line t2) = push d (pop_expired (line t2) (current_region d a (line t1 - 1))) t2 \<and>
         (\<forall>l. line t2 \<le> l \<and> l \<le> e2 \<longrightarrow> timeline d a l = Governed (permission t2)) \<and>
         (\<forall>l. line t2 \<le> l \<and> l \<le> Suc e2 \<longrightarrow>
            (current_region d a l = push d (pop_expired (line t2) (current_region d a (line t2 - 1))) t2
               \<longleftrightarrow> l \<le> e2)) \<and>
         current_region d a (Suc e2) = pop_expired (Suc e2) (current_region d a (line t2 - 1)) \<and>
         current_region d a (Suc e2) = pop_expired (Suc e2) (current_region d a (line t1 - 1))"
proof -
  let ?L1 = "line t1" and ?L2 = "line t2"
  let ?prior = "current_region d a (line t1 - 1)"
  have lt: "?L1 < ?L2" using order by simp
  have at: "tags_at d a l = filter (\<lambda>t. line t = l) [t1, t2]" if "?L1 \<le> l" "l \<le> Suc e2" for l
    using tags_at_between[OF that, of d a] only by simp
  have at1: "tags_at d a ?L1 = [t1]"
    using at[of ?L1] lt order by simp
  have quiet1: "\<forall>k. ?L1 < k \<and> k \<le> l \<longrightarrow> tags_at d a k = []" if "l < ?L2" for l
    using that at order by auto
  have first: "current_region d a l = push d (pop_expired ?L1 ?prior) t1" if "?L1 \<le> l" "l \<le> e1" for l
    using region_in_force[OF L1 at1 e1 quiet1 that] that order by simp
  have gap: "current_region d a l = pop_expired l ?prior" if "e1 < l" "l < ?L2" for l
    using region_elapsed[OF L1 at1 e1 quiet1[OF that(2)]] that order by simp
  have before2: "pop_expired ?L2 (current_region d a (?L2 - 1)) = pop_expired ?L2 ?prior"
  proof (cases "?L2 - 1 \<le> e1")
    case True
    with order have "?L1 \<le> ?L2 - 1" by simp
    from first[OF this True] have "current_region d a (?L2 - 1) = push d (pop_expired ?L1 ?prior) t1" .
    then have "pop_expired ?L2 (current_region d a (?L2 - 1)) = pop_expired ?L2 (pop_expired ?L1 ?prior)"
      using e1 order by (simp add: push_def)
    then show ?thesis using lt by (simp add: pop_expired_twice)
  next
    case False
    then have "e1 < ?L2 - 1" "?L2 - 1 < ?L2" using order by simp_all
    from gap[OF this] show ?thesis by (simp add: pop_expired_twice)
  qed
  have only2: "tags_between d a ?L2 (Suc e2) = [t2]"
    using tags_between_narrow[of ?L1 ?L2 "Suc e2" "Suc e2" d a] only lt order by simp
  have L2: "0 < ?L2" using lt by simp
  note second = lone_region[OF L2 e2 order(3) only2]
  have start2: "current_region d a ?L2 = push d (pop_expired ?L2 ?prior) t2"
    using second(1)[rule_format, of ?L2] order before2 by (simp add: push_def)
  have after2: "current_region d a (Suc e2) = pop_expired (Suc e2) ?prior"
  proof -
    have "current_region d a (Suc e2) = pop_expired (Suc e2) (current_region d a (?L2 - 1))"
      by (rule second(3))
    also have "\<dots> = pop_expired (Suc e2) (pop_expired ?L2 (current_region d a (?L2 - 1)))"
      using order by (simp add: pop_expired_twice)
    also have "\<dots> = pop_expired (Suc e2) (pop_expired ?L2 ?prior)"
      by (simp only: before2)
    also have "\<dots> = pop_expired (Suc e2) ?prior"
      using order by (simp add: pop_expired_twice)
    finally show ?thesis .
  qed
  have tl1: "\<forall>l. ?L1 \<le> l \<and> l \<le> e1 \<longrightarrow> timeline d a l = Governed (permission t1)"
    using first by (simp add: timeline_def state_of_def push_def)
  from tl1 gap start2 second after2 show ?thesis by blast
qed

theorem sibling_regions_independent_witness:
  "timeline block_scope_doc (''human'', None) 7 = Governed Read \<and>
   timeline block_scope_doc (''human'', None) 8 = Governed Read \<and>
   timeline block_scope_doc (''human'', None) 12 = Governed Read \<and>
   timeline block_scope_doc (''human'', None) 13 = Unguarded \<and>
   timeline block_scope_doc (''human'', None) 14 = Governed Read \<and>
   timeline block_scope_doc (''human'', None) 15 = Governed Read \<and>
   timeline block_scope_doc (''human'', None) 19 = Governed Read \<and>
   timeline block_scope_doc (''human'', None) 20 = Unguarded"
proof -
  let ?a = "(''human'', None) :: actor_key"
  let ?t1 = "std_tag 7 ?a Read (Semantic ''block'')"
  let ?t2 = "std_tag 14 ?a Read (Semantic ''block'')"
  have e1: "resolved_end block_scope_doc ?t1 = Some 12"
    and e2: "resolved_end block_scope_doc ?t2 = Some 19"
    by (simp_all add: resolved_end_def block_scope_doc_def std_tag_def)
  have only: "tags_between block_scope_doc ?a (line ?t1) (Suc 19) = [?t1, ?t2]"
    by (simp add: tags_between_def block_scope_doc_def std_tag_def)
  have tags: "tags block_scope_doc = [?t1, ?t2]" by (simp add: block_scope_doc_def)
  have none: "tags_at block_scope_doc ?a l = []" if "l < 7" for l
    using that by (auto simp: tags_at_def tags std_tag_def)
  have "current_region block_scope_doc ?a 6 = (if 6 = (0::nat) then current_region block_scope_doc ?a 0
      else pop_expired 6 (current_region block_scope_doc ?a 0))"
    by (rule quiet_stretch) (simp_all add: none)
  then have before: "current_region block_scope_doc ?a (line ?t1 - 1) = None"
    by (simp add: std_tag_def)
  have "0 < line ?t1" "scope ?t1 \<noteq> Unbounded" "scope ?t2 \<noteq> Unbounded" "line ?t1 \<le> 12"
    "12 < line ?t2" "line ?t2 \<le> 19"
    by (simp_all add: std_tag_def)
  note T = sibling_regions_independent[OF this(1,2,3) e1 e2 this(4,5,6) only]
  from T have r1: "\<forall>l. 7 \<le> l \<and> l \<le> 12 \<longrightarrow> timeline block_scope_doc ?a l = Governed Read"
    by (simp add: std_tag_def)
  from T have r2: "\<forall>l. 14 \<le> l \<and> l \<le> 19 \<longrightarrow> timeline block_scope_doc ?a l = Governed Read"
    by (simp add: std_tag_def)
  from T before have "\<forall>l. 12 < l \<and> l < 14 \<longrightarrow> current_region block_scope_doc ?a l = None"
    by (simp add: std_tag_def)
  then have r3: "timeline block_scope_doc ?a 13 = Unguarded"
    by (simp add: timeline_def state_of_def)
  from T before have "current_region block_scope_doc ?a 20 = None"
    by (simp add: std_tag_def)
  then have r4: "timeline block_scope_doc ?a 20 = Unguarded"
    by (simp add: timeline_def state_of_def)
  from r1 r2 r3 r4 show ?thesis by simp
qed

end
